theory Spec2Isabelle
  imports Complex_Main "HOL-Library.Word" "HOL-Library.Monad_Syntax"
begin

unbundle bit_operations_syntax

section \<open>WOTree: the 8-byte state word (wotree256.h, struct state_t)\<close>

text \<open>
  \<^verbatim>\<open>state_t\<close> is a union of a \<^verbatim>\<open>uint64_t pack\<close> and the bit-field struct
  \<^verbatim>\<open>{slotArray : 52; count : 4; sibling_version : 1; latch : 1; node_version : 6}\<close>.
  The state is modelled by the packed word. The bit-fields are laid out as GCC and Clang do
  on x86-64 (first field in the least significant bits): \<^verbatim>\<open>slotArray\<close> is bits 0..51,
  \<^verbatim>\<open>count\<close> bits 52..55, \<^verbatim>\<open>sibling_version\<close> bit 56.
  Logical positions and slot ids are \<^verbatim>\<open>int8_t\<close> in the source; they are natural numbers
  here. The shifts of the source are defined for positions 0..15 only, and every statement
  below keeps positions in that range.
\<close>

type_synonym state_t = "64 word"

definition CARDINALITY :: nat where
  "CARDINALITY = 13"

definition UNDERFLOW_CARD :: nat where
  "UNDERFLOW_CARD = 4"

definition unpack_slotArray :: "state_t \<Rightarrow> 64 word" where
  "unpack_slotArray s = take_bit 52 s"

definition unpack_count :: "state_t \<Rightarrow> nat" where
  "unpack_count s = unat (take_bit 4 (drop_bit 52 s))"

definition unpack_sibling_version :: "state_t \<Rightarrow> nat" where
  "unpack_sibling_version s = (if bit s 56 then 1 else 0)"

text \<open>
  Assignments to the bit-fields: the value is truncated to the field's width (for the one-bit
  field \<^verbatim>\<open>sibling_version\<close>, to its parity).
\<close>

definition set_slotArray :: "state_t \<Rightarrow> 64 word \<Rightarrow> state_t" where
  "set_slotArray s v = (s AND NOT (mask 52)) OR take_bit 52 v"

definition set_count :: "state_t \<Rightarrow> nat \<Rightarrow> state_t" where
  "set_count s c = (s AND NOT (push_bit 52 (mask 4))) OR push_bit 52 (take_bit 4 (of_nat c))"

definition set_sibling_version :: "state_t \<Rightarrow> nat \<Rightarrow> state_t" where
  "set_sibling_version s b = (if odd b then set_bit 56 s else unset_bit 56 s)"

text \<open>\<^verbatim>\<open>read(idx)\<close>: the slot id at logical position \<open>idx\<close>.\<close>

definition state_t_read :: "state_t \<Rightarrow> nat \<Rightarrow> nat" where
  "state_t_read s idx =
     (let p = push_bit 12 (unpack_slotArray s)
      in unat (drop_bit ((15 - idx) * 4) (p AND push_bit ((15 - idx) * 4) 0xf)))"

text \<open>
  \<^verbatim>\<open>add(idx, slot)\<close>: \<^verbatim>\<open>count++\<close> on the 4-bit field wraps modulo 16.
\<close>

definition state_t_add :: "state_t \<Rightarrow> nat \<Rightarrow> nat \<Rightarrow> state_t" where
  "state_t_add s idx slot =
     (let p = push_bit 12 (unpack_slotArray s);
          mask = drop_bit (idx * 4) (0xffffffffffffffff :: 64 word);
          add_value = push_bit ((15 - idx) * 4) (of_nat slot :: 64 word);
          new_state = set_slotArray s
             (drop_bit 12 ((p AND NOT mask) + add_value + drop_bit 4 (p AND mask)))
      in set_count new_state (unpack_count new_state + 1))"

text \<open>
  \<^verbatim>\<open>remove(idx)\<close>: \<^verbatim>\<open>count--\<close> on the 4-bit field is written as adding 15 modulo 16.
\<close>

definition state_t_remove :: "state_t \<Rightarrow> nat \<Rightarrow> state_t" where
  "state_t_remove s idx =
     (let p = push_bit 12 (unpack_slotArray s);
          mask = drop_bit (idx * 4) (0xffffffffffffffff :: 64 word);
          new_state = set_slotArray s
             (drop_bit 12 ((p AND NOT mask) + push_bit 4 (p AND drop_bit 4 mask)))
      in set_count new_state (unpack_count new_state + 15))"

text \<open>\<^verbatim>\<open>append(idx, slot)\<close>: as \<^verbatim>\<open>add\<close>, but the count is left alone.\<close>

definition state_t_append :: "state_t \<Rightarrow> nat \<Rightarrow> nat \<Rightarrow> state_t" where
  "state_t_append s idx slot =
     (let p = push_bit 12 (unpack_slotArray s);
          mask = drop_bit (idx * 4) (0xffffffffffffffff :: 64 word);
          add_value = push_bit ((15 - idx) * 4) (of_nat slot :: 64 word)
      in set_slotArray s
           (drop_bit 12 ((p AND NOT mask) + add_value + drop_bit 4 (p AND mask))))"

text \<open>
  \<^verbatim>\<open>alloc()\<close>: the first loop marks \<^verbatim>\<open>occupy[read(i)]\<close> for \<open>i < count\<close>; the array has
  \<^verbatim>\<open>CARDINALITY\<close> entries, so a slot id of 13 or more writes outside it (\<open>None\<close>).
  The second loop returns the first unmarked index, or \<^verbatim>\<open>CARDINALITY\<close>.
\<close>

definition state_t_alloc :: "state_t \<Rightarrow> nat option" where
  "state_t_alloc s =
     (let used = map (state_t_read s) [0..<unpack_count s]
      in if list_all (\<lambda>x. x < CARDINALITY) used
         then Some (case List.find (\<lambda>i. i \<notin> set used) [0..<CARDINALITY] of
                      None \<Rightarrow> CARDINALITY | Some i \<Rightarrow> i)
         else None)"

section \<open>WOTree: records, nodes and persistent memory (wotree256.h, class Node)\<close>

text \<open>
  Modelled from the spec: \<^verbatim>\<open>_key_t\<close>, \<^verbatim>\<open>Record\<close>, \<^verbatim>\<open>MAX_KEY\<close> and \<^verbatim>\<open>res_t\<close> are declared in
  headers that are not among the sources. The spec gives keys as fixed-width unsigned integers
  (64 bits), a record as a key with an 8-byte value or pointer, and \<^verbatim>\<open>MAX_KEY\<close> as a sentinel
  strictly greater than every legal key. The value of \<^verbatim>\<open>MAX_KEY\<close> is not given: every
  definition that needs it takes it as its first argument.
\<close>

type_synonym key_t = "64 word"

record Record =
  key :: key_t
  val :: "64 word"

definition NULL :: "64 word" where
  "NULL = 0"

text \<open>The fields of \<^verbatim>\<open>Node\<close>, without the trailing underscore of the source's names.\<close>

record Node =
  state :: state_t
  leftmost_ptr :: "64 word"
  siblings :: "nat \<Rightarrow> Record"
  recs :: "nat \<Rightarrow> Record"

text \<open>
  Modelled from the spec: the persistence primitives (\<^verbatim>\<open>clwb\<close>, \<^verbatim>\<open>mfence\<close>,
  \<^verbatim>\<open>persist_assign\<close> of flush.h) and the allocator (\<^verbatim>\<open>galc\<close> of pmallocator.h) are not among
  the sources. A call of a primitive is recorded as an event, in program order, together with
  the plain stores to node memory; \<^verbatim>\<open>persist_assign\<close> is the spec's 8-byte store, flush of
  its cache line and fence, recorded as one event. The allocator is the bump allocator the
  spec suggests: \<^verbatim>\<open>malloc\<close> hands out the break address and advances it by the node size,
  \<^verbatim>\<open>absolute\<close> and \<^verbatim>\<open>relative\<close> are the identity, and a freed node is no longer accessible.
  \<open>raw\<close> is what the memory handed out by \<^verbatim>\<open>malloc\<close> holds: the constructor of \<^verbatim>\<open>Node\<close>
  does not initialise \<^verbatim>\<open>recs_\<close>.
  A result \<open>None\<close> stands for behaviour the source leaves undefined: a null or dangling
  pointer is dereferenced, an array is indexed out of its bounds, a variable is read before it
  is assigned, or a shift count is negative.
\<close>

datatype loc = State "64 word" | Leftmost "64 word" | Sibling "64 word" nat
  | Rec "64 word" nat | RootPtr
  | LeafNode nat | LeafKey int nat | LeafVal int nat | InnerNode nat
  | EntLeafBuff | EntInnerBuff | EntHeight | EntLeafCnt

datatype event = Wr loc | Clwb loc nat | Mfence | PersistAssign loc "64 word"

record pm =
  nodes :: "64 word \<Rightarrow> Node option"
  brk :: "64 word"
  raw :: "64 word \<Rightarrow> nat \<Rightarrow> Record"
  rootPtr :: "64 word"
  trace :: "event list"

definition deref :: "pm \<Rightarrow> 64 word \<Rightarrow> Node option" where
  "deref m p = (if p = NULL then None else nodes m p)"

definition put :: "64 word \<Rightarrow> Node \<Rightarrow> event list \<Rightarrow> pm \<Rightarrow> pm" where
  "put p n evs m = m\<lparr>nodes := (nodes m)(p \<mapsto> n), trace := trace m @ evs\<rparr>"

definition galc_malloc :: "pm \<Rightarrow> (64 word \<times> pm) option" where
  "galc_malloc m =
     (if brk m \<noteq> NULL \<and> unat (brk m) + 256 < 2 ^ 64
      then Some (brk m, m\<lparr>brk := brk m + 256\<rparr>) else None)"

definition galc_free :: "64 word \<Rightarrow> pm \<Rightarrow> pm" where
  "galc_free p m = m\<lparr>nodes := (nodes m)(p := None)\<rparr>"

text \<open>\<^verbatim>\<open>Node(bool isleaf = false)\<close> and the overloaded \<^verbatim>\<open>operator new\<close>.\<close>

definition Node_ctor :: "key_t \<Rightarrow> (nat \<Rightarrow> Record) \<Rightarrow> Node" where
  "Node_ctor MAX_KEY old_recs =
     \<lparr>state = 0, leftmost_ptr = NULL,
      siblings = (\<lambda>i. \<lparr>key = MAX_KEY, val = NULL\<rparr>), recs = old_recs\<rparr>"

definition new_Node :: "key_t \<Rightarrow> pm \<Rightarrow> (64 word \<times> pm) option" where
  "new_Node MAX_KEY m =
     (case galc_malloc m of
        None \<Rightarrow> None
      | Some (p, m') \<Rightarrow>
          Some (p, put p (Node_ctor MAX_KEY (raw m' p))
                     [Wr (State p), Wr (Leftmost p), Wr (Sibling p 0), Wr (Sibling p 1)] m'))"

text \<open>
  The search loop that \<^verbatim>\<open>get_child\<close>, \<^verbatim>\<open>update\<close>, \<^verbatim>\<open>remove\<close>, \<^verbatim>\<open>insertone\<close> and
  \<^verbatim>\<open>get_lrchild\<close> each spell out:
  \<^verbatim>\<open>for(i = 0; i < count; i++) { slotid = state_.read(i); if(stop(recs_[slotid].key)) break; }\<close>.
  It returns the position \<open>i\<close> at which the loop was left and the slot id last read;
  \<open>slotid\<close> is \<open>None\<close> as long as the variable has not been assigned.
\<close>

function slot_scan ::
  "(key_t \<Rightarrow> bool) \<Rightarrow> Node \<Rightarrow> nat \<Rightarrow> nat option \<Rightarrow> (nat \<times> nat option) option" where
  "slot_scan stop n i slotid =
     (if i < unpack_count (state n)
      then (if state_t_read (state n) i < CARDINALITY
            then (if stop (key (recs n (state_t_read (state n) i)))
                  then Some (i, Some (state_t_read (state n) i))
                  else slot_scan stop n (i + 1) (Some (state_t_read (state n) i)))
            else None)
      else Some (i, slotid))"
  by pat_completeness auto
termination
  by (relation "measure (\<lambda>(stop, n, i, slotid). unpack_count (state n) - i)") auto

text \<open>\<^verbatim>\<open>recs_[slotid]\<close> for a slot id read from the slot array.\<close>

definition rec_at :: "Node \<Rightarrow> nat \<Rightarrow> Record option" where
  "rec_at n slotid = (if slotid < CARDINALITY then Some (recs n slotid) else None)"

text \<open>\<^verbatim>\<open>Node::get_child\<close>, the part after the sibling test.\<close>

definition get_child_here :: "Node \<Rightarrow> key_t \<Rightarrow> 64 word option" where
  "get_child_here n k =
     (if leftmost_ptr n = NULL
      then (case slot_scan (\<lambda>x. x \<ge> k) n 0 (Some 0) of
              Some (i, Some slotid) \<Rightarrow>
                if key (recs n slotid) = k \<and> unpack_count (state n) > 0
                then Some (val (recs n slotid)) else Some NULL
            | _ \<Rightarrow> None)
      else (case slot_scan (\<lambda>x. x > k) n 0 (Some 0) of
              Some (pos, _) \<Rightarrow>
                if pos = 0 then Some (leftmost_ptr n)
                else map_option val (rec_at n (state_t_read (state n) (pos - 1)))
            | None \<Rightarrow> None))"

text \<open>\<^verbatim>\<open>Node::get_child\<close>: the recursion follows the current sibling.\<close>

partial_function (option) Node_get_child :: "pm \<Rightarrow> 64 word \<Rightarrow> key_t \<Rightarrow> 64 word option" where
  "Node_get_child m p k =
     (case deref m p of
        None \<Rightarrow> None
      | Some n \<Rightarrow>
          if k \<ge> key (siblings n (unpack_sibling_version (state n)))
          then Node_get_child m (val (siblings n (unpack_sibling_version (state n)))) k
          else get_child_here n k)"

text \<open>\<^verbatim>\<open>Node::update\<close>: the updated node and the events, with the result.\<close>

definition Node_update ::
  "64 word \<Rightarrow> Node \<Rightarrow> key_t \<Rightarrow> 64 word \<Rightarrow> (bool \<times> Node \<times> event list) option" where
  "Node_update p n k v =
     (case slot_scan (\<lambda>x. x \<ge> k) n 0 (Some 0) of
        Some (i, Some slotid) \<Rightarrow>
          if key (recs n slotid) = k
          then Some (True, n\<lparr>recs := (recs n)(slotid := (recs n slotid)\<lparr>val := v\<rparr>)\<rparr>,
                     [Wr (Rec p slotid), Clwb (Rec p slotid) 16])
          else Some (False, n, [])
      | _ \<Rightarrow> None)"

text \<open>
  \<^verbatim>\<open>Node::remove\<close>, the part after the sibling test. In the leaf branch \<^verbatim>\<open>slotid\<close> is
  declared without a value and read after the loop; in the inner branch
  \<^verbatim>\<open>state_.remove(idx - 1)\<close> shifts by a negative count when \<open>idx = 0\<close>.
\<close>

definition remove_here :: "64 word \<Rightarrow> Node \<Rightarrow> key_t \<Rightarrow> (bool \<times> Node \<times> event list) option" where
  "remove_here p n k =
     (if leftmost_ptr n = NULL
      then (case slot_scan (\<lambda>x. x \<ge> k) n 0 None of
              Some (idx, Some slotid) \<Rightarrow>
                if key (recs n slotid) = k
                then Some (True, n\<lparr>state := state_t_remove (state n) idx\<rparr>,
                           [PersistAssign (State p) (state_t_remove (state n) idx)])
                else Some (False, n, [])
            | _ \<Rightarrow> None)
      else (case slot_scan (\<lambda>x. x > k) n 0 None of
              Some (idx, _) \<Rightarrow>
                if idx = 0 then None
                else Some (True, n\<lparr>state := state_t_remove (state n) (idx - 1)\<rparr>,
                           [PersistAssign (State p) (state_t_remove (state n) (idx - 1))])
            | None \<Rightarrow> None))"

partial_function (option) Node_remove :: "pm \<Rightarrow> 64 word \<Rightarrow> key_t \<Rightarrow> (bool \<times> pm) option" where
  "Node_remove m p k =
     (case deref m p of
        None \<Rightarrow> None
      | Some n \<Rightarrow>
          if k \<ge> key (siblings n (unpack_sibling_version (state n)))
          then Node_remove m (val (siblings n (unpack_sibling_version (state n)))) k
          else (case remove_here p n k of
                  None \<Rightarrow> None
                | Some (b, n', evs) \<Rightarrow> Some (b, put p n' evs m)))"

text \<open>
  \<^verbatim>\<open>Node::insertone\<close>. \<^verbatim>\<open>alloc\<close> returns \<^verbatim>\<open>CARDINALITY\<close> when the node is full, and
  \<^verbatim>\<open>recs_[CARDINALITY]\<close> is outside the array.
\<close>

definition Node_insertone :: "64 word \<Rightarrow> Node \<Rightarrow> key_t \<Rightarrow> 64 word \<Rightarrow> (Node \<times> event list) option" where
  "Node_insertone p n k right =
     (case slot_scan (\<lambda>x. k < x) n 0 None of
        None \<Rightarrow> None
      | Some (idx, _) \<Rightarrow>
          (case state_t_alloc (state n) of
             None \<Rightarrow> None
           | Some slotid \<Rightarrow>
               if slotid < CARDINALITY
               then Some (n\<lparr>recs := (recs n)(slotid := \<lparr>key = k, val = right\<rparr>),
                             state := state_t_add (state n) idx slotid\<rparr>,
                          [Wr (Rec p slotid), Clwb (Rec p slotid) 16, Mfence,
                           PersistAssign (State p) (state_t_add (state n) idx slotid)])
               else None))"

text \<open>\<^verbatim>\<open>Node::append\<close>.\<close>

definition Node_append :: "64 word \<Rightarrow> Node \<Rightarrow> Record \<Rightarrow> nat \<Rightarrow> nat \<Rightarrow> (Node \<times> event list) option" where
  "Node_append p n r slotid pos =
     (if slotid < CARDINALITY
      then Some (n\<lparr>recs := (recs n)(slotid := r),
                    state := state_t_append (state n) pos slotid\<rparr>,
                 [Wr (Rec p slotid), Wr (State p)])
      else None)"

text \<open>
  The copy loop of \<^verbatim>\<open>store\<close>:
  \<^verbatim>\<open>for(i = from; i < count; i++) { slotid = state_.read(i); split_node->append(recs_[slotid], j, j); j += 1; }\<close>,
  over the positions \<open>is\<close>, from the node \<open>n\<close> into the split node \<open>sn\<close> at \<open>sp\<close>.
\<close>

fun copy_loop ::
  "Node \<Rightarrow> 64 word \<Rightarrow> nat list \<Rightarrow> Node \<times> nat \<times> event list \<Rightarrow> (Node \<times> nat \<times> event list) option" where
  "copy_loop n sp [] acc = Some acc"
| "copy_loop n sp (i # is) (sn, j, evs) =
     (case rec_at n (state_t_read (state n) i) of
        None \<Rightarrow> None
      | Some r \<Rightarrow>
          (case Node_append sp sn r j j of
             None \<Rightarrow> None
           | Some (sn', evs') \<Rightarrow> copy_loop n sp is (sn', j + 1, evs @ evs')))"

text \<open>
  \<^verbatim>\<open>Node::store\<close>, the split: everything from the test \<^verbatim>\<open>count == CARDINALITY\<close> up to and
  including \<^verbatim>\<open>persist_assign(&(state_.pack), new_state.pack)\<close>. The result is the split key,
  the address of the split node and the memory.
\<close>

definition Node_split :: "key_t \<Rightarrow> pm \<Rightarrow> 64 word \<Rightarrow> (key_t \<times> 64 word \<times> pm) option" where
  "Node_split MAX_KEY m0 p =
     do {
       n \<leftarrow> deref m0 p;
       let m = unpack_count (state n) div 2;
       mrec \<leftarrow> rec_at n (state_t_read (state n) m);
       let split_k = key mrec;
       let new_state = state n;
       (sp, m1) \<leftarrow> new_Node MAX_KEY m0;
       sn0 \<leftarrow> deref m1 sp;
       (sn1, j, evs1, new_state1) \<leftarrow>
         (if leftmost_ptr n = NULL
          then do {
            (sn, j, evs) \<leftarrow> copy_loop n sp [m..<unpack_count (state n)] (sn0, 0, []);
            Some (sn, j, evs, set_count new_state (unpack_count new_state + 16 - j))
          }
          else do {
            (sn, j, evs) \<leftarrow> copy_loop n sp [m + 1..<unpack_count (state n)]
                               (sn0\<lparr>leftmost_ptr := val mrec\<rparr>, 0, [Wr (Leftmost sp)]);
            Some (sn, j, evs, set_count new_state (unpack_count new_state + 16 - (j + 1)))
          });
       let sv = unpack_sibling_version (state n);
       let sn2 = sn1\<lparr>state := set_sibling_version (set_count (state sn1) j) 0,
                     siblings := (siblings sn1)(0 := siblings n sv)\<rparr>;
       let m2 = put sp sn2
                  (evs1 @ [Wr (State sp), Wr (State sp), Wr (Sibling sp 0),
                           Clwb (State sp) 64, Clwb (Rec sp 1) (16 * (j - 1))]) m1;
       let shadow = (sv + 1) mod 2;
       let new_state2 = set_sibling_version new_state1 shadow;
       let n' = n\<lparr>siblings := (siblings n)(shadow := \<lparr>key = split_k, val = sp\<rparr>),
                  state := new_state2\<rparr>;
       Some (split_k, sp,
             put p n' [Wr (Sibling p shadow), Mfence, PersistAssign (State p) new_state2] m2)
     }"

text \<open>
  \<^verbatim>\<open>Node::store\<close>: the result is \<open>Some (split_k, split_node)\<close> when the node was split
  (the source returns \<^verbatim>\<open>true\<close> and sets both reference parameters) and \<open>None\<close> otherwise.
\<close>

definition Node_store ::
  "key_t \<Rightarrow> pm \<Rightarrow> 64 word \<Rightarrow> key_t \<Rightarrow> 64 word \<Rightarrow> ((key_t \<times> 64 word) option \<times> pm) option" where
  "Node_store MAX_KEY m0 p k v =
     do {
       n \<leftarrow> deref m0 p;
       if unpack_count (state n) = CARDINALITY
       then do {
         (split_k, sp, m1) \<leftarrow> Node_split MAX_KEY m0 p;
         let target = (if k < split_k then p else sp);
         tn \<leftarrow> deref m1 target;
         (tn', evs) \<leftarrow> Node_insertone target tn k v;
         Some (Some (split_k, sp), put target tn' evs m1)
       }
       else do {
         (n', evs) \<leftarrow> Node_insertone p n k v;
         Some (None, put p n' evs m0)
       }
     }"

section \<open>WOTree: the driver (wotree256.cc)\<close>

text \<open>
  \<^verbatim>\<open>insert_recursive\<close>. The result is the split handed to the caller (\<open>None\<close> when the
  source returns \<^verbatim>\<open>false\<close>), the level counter and the memory.
\<close>

partial_function (option) insert_recursive ::
  "key_t \<Rightarrow> pm \<Rightarrow> 64 word \<Rightarrow> key_t \<Rightarrow> 64 word \<Rightarrow> nat
     \<Rightarrow> ((key_t \<times> 64 word) option \<times> nat \<times> pm) option" where
  "insert_recursive MAX_KEY m n k v level =
     (case deref m n of
        None \<Rightarrow> None
      | Some nd \<Rightarrow>
          if leftmost_ptr nd = NULL
          then (case Node_store MAX_KEY m n k v of
                  None \<Rightarrow> None
                | Some (split, m1) \<Rightarrow> Some (split, level, m1))
          else (case Node_get_child m n k of
                  None \<Rightarrow> None
                | Some child \<Rightarrow>
                    Option.bind (insert_recursive MAX_KEY m child k v (level + 1))
                      (\<lambda>(split_child, level1, m1).
                         case split_child of
                           None \<Rightarrow> Some (None, level1, m1)
                         | Some (split_k_child, split_node_child) \<Rightarrow>
                             (case Node_store MAX_KEY m1 n split_k_child split_node_child of
                                None \<Rightarrow> None
                              | Some (split, m2) \<Rightarrow> Some (split, level1, m2)))))"

text \<open>
  \<^verbatim>\<open>insert\<close>. \<^verbatim>\<open>res_t\<close> is a flag with a record; the flag is true when the split of the
  root is handed to the caller.
\<close>

definition wotree256_insert ::
  "key_t \<Rightarrow> pm \<Rightarrow> key_t \<Rightarrow> 64 word \<Rightarrow> int \<Rightarrow> ((bool \<times> Record) \<times> pm) option" where
  "wotree256_insert MAX_KEY m k v threshold =
     (case insert_recursive MAX_KEY m (rootPtr m) k v 1 of
        None \<Rightarrow> None
      | Some (None, level, m1) \<Rightarrow> Some ((False, \<lparr>key = 0, val = NULL\<rparr>), m1)
      | Some (Some (split_k, split_node), level, m1) \<Rightarrow>
          if int level < threshold
          then do {
            (new_root, m2) \<leftarrow> new_Node MAX_KEY m1;
            nr \<leftarrow> deref m2 new_root;
            (nr1, evs) \<leftarrow> Node_append new_root (nr\<lparr>leftmost_ptr := rootPtr m\<rparr>)
                             \<lparr>key = split_k, val = split_node\<rparr> 0 0;
            let nr2 = nr1\<lparr>state := set_count (state nr1) 1\<rparr>;
            let m3 = put new_root nr2
                       ([Wr (Leftmost new_root)] @ evs @
                        [Wr (State new_root), Clwb (State new_root) 64, Mfence,
                         PersistAssign RootPtr new_root]) m2;
            Some ((False, \<lparr>key = 0, val = NULL\<rparr>), m3\<lparr>rootPtr := new_root\<rparr>)
          }
          else Some ((True, \<lparr>key = split_k, val = split_node\<rparr>), m1))"

text \<open>\<^verbatim>\<open>find\<close> and \<^verbatim>\<open>update\<close>: the loop that walks from the root to a leaf.\<close>

partial_function (option) descend :: "pm \<Rightarrow> 64 word \<Rightarrow> key_t \<Rightarrow> 64 word option" where
  "descend m cur k =
     (case deref m cur of
        None \<Rightarrow> None
      | Some n \<Rightarrow>
          if leftmost_ptr n \<noteq> NULL
          then (case Node_get_child m cur k of
                  None \<Rightarrow> None
                | Some child_ptr \<Rightarrow> descend m child_ptr k)
          else Some cur)"

text \<open>\<^verbatim>\<open>find\<close>: the boolean result and the value stored through \<^verbatim>\<open>val\<close>.\<close>

definition wotree256_find :: "pm \<Rightarrow> key_t \<Rightarrow> (bool \<times> 64 word) option" where
  "wotree256_find m k =
     (case descend m (rootPtr m) k of
        None \<Rightarrow> None
      | Some cur \<Rightarrow>
          (case Node_get_child m cur k of
             None \<Rightarrow> None
           | Some v \<Rightarrow> if v = NULL then Some (False, v) else Some (True, v)))"

text \<open>
  \<^verbatim>\<open>update\<close>: the result of \<^verbatim>\<open>cur->update(key, val)\<close> is stored in the parameter
  \<^verbatim>\<open>val\<close>, and the function returns \<^verbatim>\<open>true\<close>.
\<close>

definition wotree256_update :: "pm \<Rightarrow> key_t \<Rightarrow> 64 word \<Rightarrow> (bool \<times> pm) option" where
  "wotree256_update m k v =
     (case descend m (rootPtr m) k of
        None \<Rightarrow> None
      | Some cur \<Rightarrow>
          (case deref m cur of
             None \<Rightarrow> None
           | Some n \<Rightarrow>
               (case Node_update cur n k v of
                  None \<Rightarrow> None
                | Some (b, n', evs) \<Rightarrow> Some (True, put cur n' evs m))))"

text \<open>The loop of \<^verbatim>\<open>Node::merge\<close> over the records of the right node.\<close>

fun merge_loop ::
  "64 word \<Rightarrow> Node \<Rightarrow> nat list \<Rightarrow> Node \<times> state_t \<times> event list
     \<Rightarrow> (Node \<times> state_t \<times> event list) option" where
  "merge_loop left r [] acc = Some acc"
| "merge_loop left r (i # is) (l, new_state, evs) =
     (case state_t_alloc new_state of
        None \<Rightarrow> None
      | Some slotid \<Rightarrow>
          (case rec_at r (state_t_read (state r) i) of
             None \<Rightarrow> None
           | Some rc \<Rightarrow>
               (case Node_append left l rc slotid (unpack_count new_state) of
                  None \<Rightarrow> None
                | Some (l', evs') \<Rightarrow>
                    merge_loop left r is
                      (l', state_t_add new_state (unpack_count new_state) slotid, evs @ evs'))))"

text \<open>\<^verbatim>\<open>Node::merge(left, right)\<close>.\<close>

definition Node_merge :: "pm \<Rightarrow> 64 word \<Rightarrow> 64 word \<Rightarrow> pm option" where
  "Node_merge m left right =
     do {
       l \<leftarrow> deref m left;
       r \<leftarrow> deref m right;
       let sibling = siblings l (unpack_sibling_version (state l));
       let new_state = state l;
       (l1, new_state1, evs1) \<leftarrow>
         (if leftmost_ptr l \<noteq> NULL
          then do {
            slotid \<leftarrow> state_t_alloc new_state;
            (l', evs) \<leftarrow> Node_append left l \<lparr>key = key sibling, val = leftmost_ptr r\<rparr>
                            slotid (unpack_count new_state);
            Some (l', state_t_add new_state (unpack_count new_state) slotid, evs)
          }
          else Some (l, new_state, []));
       (l2, new_state2, evs2) \<leftarrow>
         merge_loop left r [0..<unpack_count (state r)] (l1, new_state1, evs1);
       let tmp = siblings r (unpack_sibling_version (state r));
       let shadow = (unpack_sibling_version (state l2) + 1) mod 2;
       let new_state3 = set_sibling_version new_state2 shadow;
       let l3 = l2\<lparr>siblings := (siblings l2)(shadow := tmp), state := new_state3\<rparr>;
       Some (galc_free right
               (put left l3
                  (evs2 @ [Wr (Sibling left shadow), Clwb (State left) 256, Mfence,
                           Wr (State left), Clwb (State left) 64]) m))
     }"

text \<open>\<^verbatim>\<open>Node::get_lrchild\<close>: the left and the right neighbour, \<^verbatim>\<open>NULL\<close> where there is none.\<close>

definition Node_get_lrchild :: "Node \<Rightarrow> key_t \<Rightarrow> (64 word \<times> 64 word) option" where
  "Node_get_lrchild n k =
     (case slot_scan (\<lambda>x. x > k) n 0 None of
        None \<Rightarrow> None
      | Some (i, _) \<Rightarrow>
          do {
            left \<leftarrow> (if i = 0 then Some NULL
                     else if i = 1 then Some (leftmost_ptr n)
                     else map_option val (rec_at n (state_t_read (state n) (i - 2))));
            right \<leftarrow> (if i = unpack_count (state n) then Some NULL
                      else map_option val (rec_at n (state_t_read (state n) i)));
            Some (left, right)
          })"

text \<open>
  The merge attempt that \<^verbatim>\<open>remove_recursive\<close> and \<^verbatim>\<open>remove\<close> both spell out after a
  child reported an underflow: with the left neighbour if there is one and the two fit into
  one node, else with the right neighbour under the same condition. The flag says whether
  a merge took place.
\<close>

definition fits :: "pm \<Rightarrow> Node \<Rightarrow> 64 word \<Rightarrow> bool option" where
  "fits m c sib =
     (if sib \<noteq> NULL
      then map_option (\<lambda>s. unpack_count (state c) + unpack_count (state s) < CARDINALITY)
             (deref m sib)
      else Some False)"

definition merge_child :: "pm \<Rightarrow> 64 word \<Rightarrow> 64 word \<Rightarrow> key_t \<Rightarrow> (bool \<times> pm) option" where
  "merge_child m n child k =
     do {
       nd \<leftarrow> deref m n;
       (leftsib, rightsib) \<leftarrow> Node_get_lrchild nd k;
       c \<leftarrow> deref m child;
       lfit \<leftarrow> fits m c leftsib;
       if lfit
       then do {
         r0 \<leftarrow> rec_at c (state_t_read (state c) 0);
         (b, m1) \<leftarrow> Node_remove m n (key r0);
         m2 \<leftarrow> Node_merge m1 leftsib child;
         Some (True, m2)
       }
       else do {
         rfit \<leftarrow> fits m c rightsib;
         if rfit
         then do {
           r \<leftarrow> deref m rightsib;
           r0 \<leftarrow> rec_at r (state_t_read (state r) 0);
           (b, m1) \<leftarrow> Node_remove m n (key r0);
           m2 \<leftarrow> Node_merge m1 child rightsib;
           Some (True, m2)
         }
         else Some (False, m)
       }
     }"

text \<open>\<^verbatim>\<open>remove_recursive\<close>: the flag says whether the node should be merged.\<close>

definition underflow :: "pm \<Rightarrow> 64 word \<Rightarrow> bool option" where
  "underflow m n = map_option (\<lambda>nd. unpack_count (state nd) < UNDERFLOW_CARD) (deref m n)"

partial_function (option) remove_recursive :: "pm \<Rightarrow> 64 word \<Rightarrow> key_t \<Rightarrow> (bool \<times> pm) option" where
  "remove_recursive m n k =
     (case deref m n of
        None \<Rightarrow> None
      | Some nd \<Rightarrow>
          if leftmost_ptr nd = NULL
          then (case Node_remove m n k of
                  None \<Rightarrow> None
                | Some (b, m1) \<Rightarrow>
                    (case underflow m1 n of None \<Rightarrow> None | Some u \<Rightarrow> Some (u, m1)))
          else (case Node_get_child m n k of
                  None \<Rightarrow> None
                | Some child \<Rightarrow>
                    Option.bind (remove_recursive m child k)
                      (\<lambda>(shouldMrg, m1).
                         if shouldMrg
                         then (case merge_child m1 n child k of
                                 None \<Rightarrow> None
                               | Some (merged, m2) \<Rightarrow>
                                   if merged
                                   then (case underflow m2 n of
                                           None \<Rightarrow> None
                                         | Some u \<Rightarrow> Some (u, m2))
                                   else Some (False, m2))
                         else Some (False, m1))))"

text \<open>\<^verbatim>\<open>remove\<close>: the flag is true when the root is a leaf that holds no record afterwards.\<close>

definition wotree256_remove :: "pm \<Rightarrow> key_t \<Rightarrow> (bool \<times> pm) option" where
  "wotree256_remove m k =
     do {
       root \<leftarrow> deref m (rootPtr m);
       if leftmost_ptr root = NULL
       then do {
         (b, m1) \<leftarrow> Node_remove m (rootPtr m) k;
         root1 \<leftarrow> deref m1 (rootPtr m);
         Some (unpack_count (state root1) = 0, m1)
       }
       else do {
         child \<leftarrow> Node_get_child m (rootPtr m) k;
         (shouldMrg, m1) \<leftarrow> remove_recursive m child k;
         if shouldMrg
         then do {
           (merged, m2) \<leftarrow> merge_child m1 (rootPtr m) child k;
           root2 \<leftarrow> deref m2 (rootPtr m);
           if unpack_count (state root2) = 0
           then Some (False,
                      galc_free (rootPtr m)
                        (m2\<lparr>rootPtr := leftmost_ptr root2,
                            trace := trace m2 @ [PersistAssign RootPtr (leftmost_ptr root2)]\<rparr>))
           else Some (False, m2)
         }
         else Some (False, m1)
       }
     }"

text \<open>
  The tree the driver starts from: the root pointer refers to a single node built by the
  constructor, a leaf without records. \<open>old_recs\<close> is what its \<^verbatim>\<open>recs_\<close> array happens
  to hold.
\<close>

definition empty_tree :: "key_t \<Rightarrow> (nat \<Rightarrow> Record) \<Rightarrow> pm" where
  "empty_tree MAX_KEY old_recs =
     \<lparr>nodes = (\<lambda>_. None)(256 \<mapsto> Node_ctor MAX_KEY old_recs), brk = 512,
      raw = (\<lambda>_. old_recs), rootPtr = 256, trace = []\<rparr>"

text \<open>
  A memory whose root is a full leaf: the keys 1..13 with the values 101..113, in the
  physical slots 0..12 in this order, count 13, no sibling. A second one whose root is a
  full inner node with the same records.
\<close>

definition full_node :: "64 word \<Rightarrow> pm" where
  "full_node lm =
     \<lparr>nodes = (\<lambda>_. None)(256 \<mapsto>
        \<lparr>state = 0xd0123456789abc, leftmost_ptr = lm,
         siblings = (\<lambda>_. \<lparr>key = 0xffffffffffffffff, val = NULL\<rparr>),
         recs = (\<lambda>i. \<lparr>key = of_nat (i + 1), val = of_nat (i + 101)\<rparr>)\<rparr>),
      brk = 512, raw = (\<lambda>_ _. \<lparr>key = 0, val = 0\<rparr>), rootPtr = 256, trace = []\<rparr>"

text \<open>The node a location belongs to, and the events that are flushes.\<close>

fun node_of :: "loc \<Rightarrow> 64 word option" where
  "node_of (State p) = Some p"
| "node_of (Leftmost p) = Some p"
| "node_of (Sibling p i) = Some p"
| "node_of (Rec p i) = Some p"
| "node_of l = None"

fun is_flush :: "event \<Rightarrow> bool" where
  "is_flush (Clwb l len) = True"
| "is_flush e = False"

fun writes_to :: "64 word \<Rightarrow> event \<Rightarrow> bool" where
  "writes_to p (Wr l) = (node_of l = Some p)"
| "writes_to p e = False"

text \<open>
  What a split leaves behind, for reading results off: the split key, the address of the
  new node, the count of the new node and the count of the node that was split; and the
  events of the split.
\<close>

definition split_counts ::
  "key_t \<Rightarrow> pm \<Rightarrow> 64 word \<Rightarrow> (key_t \<times> 64 word \<times> nat option \<times> nat option) option" where
  "split_counts MAX_KEY m p =
     map_option
       (\<lambda>(split_k, sp, m').
          (split_k, sp, map_option (\<lambda>n. unpack_count (state n)) (deref m' sp),
           map_option (\<lambda>n. unpack_count (state n)) (deref m' p)))
       (Node_split MAX_KEY m p)"

definition split_trace :: "key_t \<Rightarrow> pm \<Rightarrow> 64 word \<Rightarrow> event list option" where
  "split_trace MAX_KEY m p =
     map_option (\<lambda>(split_k, sp, m'). drop (length (trace m)) (trace m')) (Node_split MAX_KEY m p)"

section \<open>FixTree (fixtree.h)\<close>

definition INNER_CARD :: nat where
  "INNER_CARD = 32"

definition LEAF_CARD :: nat where
  "LEAF_CARD = 16"

definition LEAF_REBUILD_CARD :: nat where
  "LEAF_REBUILD_CARD = 8"

definition MAX_HEIGHT :: nat where
  "MAX_HEIGHT = 10"

text \<open>
  \<^verbatim>\<open>INNode\<close> is the array \<^verbatim>\<open>keys[INNER_CARD]\<close>; \<^verbatim>\<open>LFNode\<close> has \<^verbatim>\<open>keys[LEAF_CARD]\<close> and
  \<^verbatim>\<open>vals[LEAF_CARD]\<close>. The fields of \<^verbatim>\<open>entrance_t\<close> carry the prefix \<open>e_\<close>, the members of
  \<^verbatim>\<open>Fixtree\<close> lose their trailing underscore. \<open>inner_nodes\<close> and \<open>leaf_nodes\<close> are the
  contents of the two buffers by node index; \<open>inner_cap\<close> and \<open>leaf_cap\<close> are the numbers
  of nodes the buffers were allocated for, so that an index outside a buffer is \<open>None\<close>.
  \<open>events\<close> records the persistence primitives in program order.
\<close>

type_synonym INNode = "nat \<Rightarrow> key_t"

record LFNode =
  keys :: "nat \<Rightarrow> key_t"
  vals :: "nat \<Rightarrow> 64 word"

record entrance_t =
  e_leaf_buff :: "64 word"
  e_inner_buff :: "64 word"
  e_height :: nat
  e_leaf_cnt :: nat

record Fixtree =
  inner_nodes :: "nat \<Rightarrow> INNode"
  inner_cap :: nat
  leaf_nodes :: "nat \<Rightarrow> LFNode"
  leaf_cap :: nat
  height :: nat
  leaf_cnt :: nat
  entrance :: entrance_t
  level_offset :: "nat \<Rightarrow> 32 word"
  events :: "event list"

text \<open>\<^verbatim>\<open>inner_search(node_idx, key)\<close>: the position before the first key above \<open>key\<close>.\<close>

definition inner_search :: "Fixtree \<Rightarrow> int \<Rightarrow> key_t \<Rightarrow> int option" where
  "inner_search t node_idx k =
     (if 0 \<le> node_idx \<and> node_idx < int (inner_cap t)
      then Some (case List.find (\<lambda>i. inner_nodes t (nat node_idx) i > k) [0..<INNER_CARD] of
                   Some i \<Rightarrow> int i - 1
                 | None \<Rightarrow> int INNER_CARD - 1)
      else None)"

text \<open>
  The loop that \<^verbatim>\<open>find_lower\<close>, \<^verbatim>\<open>insert\<close> and \<^verbatim>\<open>try_remove\<close> each start with:
  \<^verbatim>\<open>cur_idx = level_offset_[l + 1] + (cur_idx - level_offset_[l]) * INNER_CARD + inner_search(cur_idx, key)\<close>
  for the levels \<open>l\<close> of the list. \<^verbatim>\<open>level_offset_\<close> is an array of \<^verbatim>\<open>uint32_t\<close>, so the
  right-hand side is computed modulo \<open>2^32\<close> whether \<^verbatim>\<open>cur_idx\<close> is an \<^verbatim>\<open>int\<close> or a
  \<^verbatim>\<open>uint32_t\<close>; \<^verbatim>\<open>inner_search\<close> receives it as an \<^verbatim>\<open>int\<close>.
\<close>

fun descent :: "Fixtree \<Rightarrow> key_t \<Rightarrow> nat list \<Rightarrow> 32 word \<Rightarrow> 32 word option" where
  "descent t k [] cur_idx = Some cur_idx"
| "descent t k (l # ls) cur_idx =
     (if l + 1 < MAX_HEIGHT
      then (case inner_search t (sint cur_idx) k of
              None \<Rightarrow> None
            | Some r \<Rightarrow>
                descent t k ls
                  (level_offset t (l + 1) + (cur_idx - level_offset t l) * of_nat INNER_CARD
                   + of_int r))
      else None)"

text \<open>The index of the leaf the descent selects: \<^verbatim>\<open>cur_idx -= level_offset_[height_]\<close>.\<close>

definition target_leaf :: "Fixtree \<Rightarrow> key_t \<Rightarrow> 32 word option" where
  "target_leaf t k =
     (if height t < MAX_HEIGHT
      then map_option (\<lambda>cur_idx. cur_idx - level_offset t (height t))
             (descent t k [0..<height t] (level_offset t 0))
      else None)"

definition leaf_at :: "Fixtree \<Rightarrow> int \<Rightarrow> LFNode option" where
  "leaf_at t i = (if 0 \<le> i \<and> i < int (leaf_cap t) then Some (leaf_nodes t (nat i)) else None)"

text \<open>The loop of \<^verbatim>\<open>leaf_search\<close>: the running maximum and its position.\<close>

definition search_step :: "LFNode \<Rightarrow> key_t \<Rightarrow> nat \<Rightarrow> key_t \<times> nat \<Rightarrow> key_t \<times> nat" where
  "search_step lf k =
     (\<lambda>i (max_leqkey, max_leqi).
        if keys lf i \<le> k \<and> keys lf i > max_leqkey then (keys lf i, i)
        else (max_leqkey, max_leqi))"

definition max_leq_scan :: "LFNode \<Rightarrow> key_t \<Rightarrow> key_t \<times> nat" where
  "max_leq_scan lf k = fold (search_step lf k) [1..<LEAF_CARD] (keys lf 0, 0)"

text \<open>
  \<^verbatim>\<open>find_lower\<close>: the pointer \<^verbatim>\<open>&leaf_nodes_[cur_idx].vals[max_leqi]\<close> is given by the leaf
  index and the slot.
\<close>

definition Fixtree_find_lower :: "Fixtree \<Rightarrow> key_t \<Rightarrow> (int \<times> nat) option" where
  "Fixtree_find_lower t k =
     do {
       cur_idx \<leftarrow> target_leaf t k;
       lf \<leftarrow> leaf_at t (sint cur_idx);
       Some (sint cur_idx, snd (max_leq_scan lf k))
     }"

text \<open>\<^verbatim>\<open>leaf_insert(node_idx, off, rec)\<close>.\<close>

definition leaf_insert :: "Fixtree \<Rightarrow> int \<Rightarrow> nat \<Rightarrow> Record \<Rightarrow> Fixtree option" where
  "leaf_insert t node_idx off r =
     (case leaf_at t node_idx of
        None \<Rightarrow> None
      | Some lf \<Rightarrow>
          Some (t\<lparr>leaf_nodes := (leaf_nodes t)(nat node_idx :=
                     lf\<lparr>vals := (vals lf)(off := val r), keys := (keys lf)(off := key r)\<rparr>),
                   events := events t @
                     [Wr (LeafVal node_idx off), Clwb (LeafVal node_idx off) 8, Mfence,
                      Wr (LeafKey node_idx off), Clwb (LeafKey node_idx off) 8, Mfence]\<rparr>))"

text \<open>
  \<^verbatim>\<open>insert\<close>: \<^verbatim>\<open>cur_idx\<close> is a \<^verbatim>\<open>uint32_t\<close> here, so \<^verbatim>\<open>leaf_nodes_ + cur_idx\<close> reads the
  leaf at the unsigned index, while \<^verbatim>\<open>leaf_insert\<close> takes an \<^verbatim>\<open>int\<close>.
\<close>

definition Fixtree_insert :: "key_t \<Rightarrow> Fixtree \<Rightarrow> key_t \<Rightarrow> 64 word \<Rightarrow> (bool \<times> Fixtree) option" where
  "Fixtree_insert MAX_KEY t k v =
     do {
       cur_idx \<leftarrow> target_leaf t k;
       cur_leaf \<leftarrow> leaf_at t (uint cur_idx);
       case List.find (\<lambda>i. keys cur_leaf i = MAX_KEY) [0..<LEAF_CARD] of
         None \<Rightarrow> Some (False, t)
       | Some i \<Rightarrow> map_option (Pair True) (leaf_insert t (sint cur_idx) i \<lparr>key = k, val = v\<rparr>)
     }"

text \<open>
  The loop of \<^verbatim>\<open>try_remove\<close>: the running maximum, its position and the record count,
  which starts at 1.
\<close>

definition remove_step ::
  "key_t \<Rightarrow> LFNode \<Rightarrow> key_t \<Rightarrow> nat \<Rightarrow> key_t \<times> nat \<times> nat \<Rightarrow> key_t \<times> nat \<times> nat" where
  "remove_step MAX_KEY lf k =
     (\<lambda>i (max_leqkey, max_leqi, rec_cnt).
        if keys lf i \<noteq> MAX_KEY
        then (if keys lf i \<le> k \<and> keys lf i > max_leqkey
              then (keys lf i, i, rec_cnt + 1)
              else (max_leqkey, max_leqi, rec_cnt + 1))
        else (max_leqkey, max_leqi, rec_cnt))"

definition remove_scan :: "key_t \<Rightarrow> LFNode \<Rightarrow> key_t \<Rightarrow> key_t \<times> nat \<times> nat" where
  "remove_scan MAX_KEY lf k =
     fold (remove_step MAX_KEY lf k) [1..<LEAF_CARD] (keys lf 0, 0, 1)"

definition Fixtree_try_remove :: "key_t \<Rightarrow> Fixtree \<Rightarrow> key_t \<Rightarrow> (bool \<times> Fixtree) option" where
  "Fixtree_try_remove MAX_KEY t k =
     do {
       cur_idx \<leftarrow> target_leaf t k;
       cur_leaf \<leftarrow> leaf_at t (sint cur_idx);
       let (max_leqkey, max_leqi, rec_cnt) = remove_scan MAX_KEY cur_leaf k;
       if max_leqi = 0 \<and> rec_cnt > 1
       then Some (False, t)
       else Some (True,
                  t\<lparr>leaf_nodes := (leaf_nodes t)(nat (sint cur_idx) :=
                       cur_leaf\<lparr>keys := (keys cur_leaf)(max_leqi := MAX_KEY)\<rparr>),
                    events := events t
                      @ [PersistAssign (LeafKey (sint cur_idx) max_leqi) MAX_KEY]\<rparr>)
     }"

subsection \<open>The constructor from a sorted vector\<close>

text \<open>
  \<^verbatim>\<open>(float)n\<close> for \<open>n\<close> of type \<^verbatim>\<open>int\<close> or \<^verbatim>\<open>uint32_t\<close>: the nearest number with a
  24-bit significand, ties to the even significand (IEEE 754 binary32). The result is an
  integer; \<open>n\<close> itself below \<open>2^24\<close>.
\<close>

function bit_len :: "nat \<Rightarrow> nat" where
  "bit_len n = (if n = 0 then 0 else Suc (bit_len (n div 2)))"
  by pat_completeness auto
termination
  by (relation "measure id") auto

declare bit_len.simps [simp del]

definition float_of :: "nat \<Rightarrow> nat" where
  "float_of n =
     (if bit_len n \<le> 24 then n
      else let q = 2 ^ (bit_len n - 24); d = n div q; r = n mod q
           in if 2 * r < q then d * q
              else if 2 * r > q then (d + 1) * q
              else if even d then d * q else (d + 1) * q)"

text \<open>
  \<^verbatim>\<open>std::ceil((float)n / d)\<close> for \<open>d = 8\<close> and \<open>d = 32\<close>: the division by a power of two
  is exact in floating point, and so is the ceiling.
\<close>

definition ceil_float_div :: "nat \<Rightarrow> nat \<Rightarrow> nat" where
  "ceil_float_div n d = (float_of n + d - 1) div d"

text \<open>
  \<^verbatim>\<open>std::ceil(std::log(x) / std::log(INNER_CARD))\<close>, computed in double precision by the
  source, is modelled by its exact value, the least \<open>h\<close> with \<open>x \<le> 32 ^ h\<close> for
  \<open>x \<ge> 32\<close>: what the rounding of \<^verbatim>\<open>std::log\<close> does is outside this model. The powers
  \<^verbatim>\<open>std::pow(INNER_CARD, l)\<close> are exact in double precision for the levels that occur.
\<close>

function ceil_log32 :: "nat \<Rightarrow> nat" where
  "ceil_log32 x = (if x \<le> 32 then 1 else Suc (ceil_log32 ((x + 31) div 32)))"
  by pat_completeness auto
termination
  by (relation "measure id") auto

declare ceil_log32.simps [simp del]

text \<open>The two loops that fill leaf \<open>i\<close>; \<open>old\<close> is what the leaf's memory held.\<close>

definition fill_leaf :: "key_t \<Rightarrow> Record list \<Rightarrow> nat \<Rightarrow> LFNode \<Rightarrow> LFNode" where
  "fill_leaf MAX_KEY records i old =
     \<lparr>keys = (\<lambda>j. if j < LEAF_REBUILD_CARD
                  then (if i * LEAF_REBUILD_CARD + j < length records
                        then key (records ! (i * LEAF_REBUILD_CARD + j)) else MAX_KEY)
                  else if j < LEAF_CARD then MAX_KEY else keys old j),
      vals = (\<lambda>j. if j < LEAF_REBUILD_CARD
                  then (if i * LEAF_REBUILD_CARD + j < length records
                        then val (records ! (i * LEAF_REBUILD_CARD + j)) else 0)
                  else vals old j)\<rparr>"

text \<open>\<^verbatim>\<open>inner_insert(node_idx, off, key)\<close>.\<close>

definition inner_insert :: "(nat \<Rightarrow> INNode) \<Rightarrow> nat \<Rightarrow> nat \<Rightarrow> key_t \<Rightarrow> (nat \<Rightarrow> INNode)" where
  "inner_insert inn node_idx off k = inn(node_idx := (inn node_idx)(off := k))"

text \<open>
  One row of inner nodes: \<^verbatim>\<open>inner_insert(cur_level_off + i / INNER_CARD, i % INNER_CARD, src)\<close>
  for \<open>i < cur_level_cnt\<close>, where \<open>src\<close> is \<^verbatim>\<open>leaf_nodes_[i].keys[0]\<close> for the parents of
  the leaves and \<^verbatim>\<open>inner_nodes_[last_level_off + i].keys[0]\<close> above, read from the buffer as
  it is at that moment; then one \<^verbatim>\<open>MAX_KEY\<close> behind the last entry if the last node is not
  full.
\<close>

definition fill_row ::
  "key_t \<Rightarrow> ((nat \<Rightarrow> INNode) \<Rightarrow> nat \<Rightarrow> key_t) \<Rightarrow> nat \<Rightarrow> nat \<Rightarrow> (nat \<Rightarrow> INNode) \<Rightarrow> (nat \<Rightarrow> INNode)" where
  "fill_row MAX_KEY src cur_level_off cur_level_cnt inn =
     (let inn1 = fold (\<lambda>i inn. inner_insert inn (cur_level_off + i div INNER_CARD)
                                  (i mod INNER_CARD) (src inn i))
                      [0..<cur_level_cnt] inn
      in if cur_level_cnt mod INNER_CARD \<noteq> 0
         then inner_insert inn1 (cur_level_off + cur_level_cnt div INNER_CARD)
                (cur_level_cnt mod INNER_CARD) MAX_KEY
         else inn1)"

text \<open>
  The loop \<^verbatim>\<open>for(int l = height_ - 2; l >= 0; l--)\<close> over the levels of the list. The
  offset computed at the end of the last round (\<open>l = 0\<close>) is not used afterwards and is
  left as it is here.
\<close>

fun fill_upper ::
  "key_t \<Rightarrow> nat list \<Rightarrow> nat \<Rightarrow> nat \<Rightarrow> nat \<Rightarrow> (nat \<Rightarrow> INNode) \<times> event list
     \<Rightarrow> (nat \<Rightarrow> INNode) \<times> event list" where
  "fill_upper MAX_KEY [] cur_level_cnt last_level_off cur_level_off acc = acc"
| "fill_upper MAX_KEY (l # ls) cur_level_cnt last_level_off cur_level_off (inn, evs) =
     fill_upper MAX_KEY ls (ceil_float_div cur_level_cnt INNER_CARD) cur_level_off
       (if l = 0 then cur_level_off else cur_level_off - INNER_CARD ^ (l - 1))
       (fill_row MAX_KEY (\<lambda>inn i. inn (last_level_off + i) 0) cur_level_off cur_level_cnt inn,
        evs @ [Clwb (InnerNode cur_level_off) (256 * (cur_level_cnt div INNER_CARD + 1))])"

text \<open>The offsets cached in \<^verbatim>\<open>level_offset_\<close>: \<open>tmp\<close> grows by \<open>32 ^ l\<close> per level.\<close>

fun level_off :: "nat \<Rightarrow> nat" where
  "level_off 0 = 0"
| "level_off (Suc l) = level_off l + INNER_CARD ^ l"

text \<open>
  \<^verbatim>\<open>Fixtree(std::vector<Record> records)\<close>. \<open>raw_inner\<close> and \<open>raw_leaf\<close> are what the two
  buffers returned by \<^verbatim>\<open>malloc\<close> hold, \<open>ib\<close> and \<open>lb\<close> are their relative addresses.
  A buffer has room for the nodes asked for, and for 16 nodes (4096 bytes) at least. The
  entries of \<^verbatim>\<open>level_offset_\<close> above \<open>height\<close> are not written by the constructor and
  not read by the three operations; they are 0 here. For a tree of height 1 the offset
  the source computes from \<^verbatim>\<open>height_ - 2\<close> before the loop over the levels is not used,
  since that loop does not run; the value given to \<open>fill_upper\<close> in that case stands for
  it and is not the source's.
\<close>

definition Fixtree_build ::
  "key_t \<Rightarrow> (nat \<Rightarrow> INNode) \<Rightarrow> (nat \<Rightarrow> LFNode) \<Rightarrow> 64 word \<Rightarrow> 64 word \<Rightarrow> Record list \<Rightarrow> Fixtree" where
  "Fixtree_build MAX_KEY raw_inner raw_leaf ib lb records =
     (let record_count = length records;
          lfnode_cnt = ceil_float_div record_count LEAF_REBUILD_CARD;
          h = ceil_log32 (max INNER_CARD lfnode_cnt);
          innode_cnt = (INNER_CARD ^ h - 1) div (INNER_CARD - 1);
          leaves = (\<lambda>i. if i < lfnode_cnt then fill_leaf MAX_KEY records i (raw_leaf i)
                        else raw_leaf i);
          cur_level_off = innode_cnt - INNER_CARD ^ (h - 1);
          inn1 = fill_row MAX_KEY (\<lambda>inn i. keys (leaves i) 0) cur_level_off lfnode_cnt raw_inner;
          (inn2, evs) =
            fill_upper MAX_KEY (rev [0..<h - 1]) (ceil_float_div lfnode_cnt INNER_CARD)
              cur_level_off (cur_level_off - INNER_CARD ^ (h - 2))
              (inn1, map (\<lambda>i. Clwb (LeafNode i) 256) [0..<lfnode_cnt]
                     @ [Clwb (InnerNode cur_level_off) (256 * (lfnode_cnt div INNER_CARD + 1))])
      in \<lparr>inner_nodes = inn2, inner_cap = max 16 innode_cnt,
          leaf_nodes = leaves, leaf_cap = max 16 lfnode_cnt,
          height = h, leaf_cnt = lfnode_cnt,
          entrance = \<lparr>e_leaf_buff = lb, e_inner_buff = ib, e_height = h, e_leaf_cnt = lfnode_cnt\<rparr>,
          level_offset = (\<lambda>l. if l \<le> h then of_nat (level_off l) else 0),
          events = evs @ [PersistAssign EntLeafBuff lb, PersistAssign EntInnerBuff ib,
                          PersistAssign EntHeight (of_nat h),
                          PersistAssign EntLeafCnt (of_nat lfnode_cnt)]\<rparr>)"

subsection \<open>FixTree: the shape of a built tree\<close>

text \<open>
  Vocabulary for the statements about the constructor. \<open>row_cnt lf d\<close> is the number of
  nodes in use \<open>d\<close> levels above the leaves when there are \<open>lf\<close> leaves: each level has
  one node per 32 nodes of the level below, rounded up. \<open>node_keys t l j\<close> is the key array
  of node \<open>j\<close> of level \<open>l\<close>, with its length; level \<open>height t\<close> is the leaf level.
  \<open>first_key\<close> is the first key of an array that is not \<^verbatim>\<open>MAX_KEY\<close>. \<open>row_ok\<close> says of
  level \<open>l\<close> of the inner buffer that the entry for every node in use of the level below
  holds the key of the first record under that node, and that \<^verbatim>\<open>MAX_KEY\<close> stands behind
  the last such entry unless that entry ends a node.
\<close>

fun row_cnt :: "nat \<Rightarrow> nat \<Rightarrow> nat" where
  "row_cnt lf 0 = lf"
| "row_cnt lf (Suc d) = (row_cnt lf d + 31) div 32"

definition node_keys :: "Fixtree \<Rightarrow> nat \<Rightarrow> nat \<Rightarrow> (nat \<Rightarrow> key_t) \<times> nat" where
  "node_keys t l j =
     (if l = height t then (keys (leaf_nodes t j), LEAF_CARD)
      else (inner_nodes t (level_off l + j), INNER_CARD))"

definition first_key :: "key_t \<Rightarrow> (nat \<Rightarrow> key_t) \<Rightarrow> nat \<Rightarrow> key_t option" where
  "first_key MAX_KEY ks n = map_option ks (List.find (\<lambda>i. ks i \<noteq> MAX_KEY) [0..<n])"

definition row_ok :: "key_t \<Rightarrow> Record list \<Rightarrow> nat \<Rightarrow> nat \<Rightarrow> (nat \<Rightarrow> INNode) \<Rightarrow> nat \<Rightarrow> bool" where
  "row_ok MAX_KEY rs lf h inn l \<longleftrightarrow>
     (\<forall>p c. c < 32 \<longrightarrow>
        (32 * p + c < row_cnt lf (h - 1 - l) \<longrightarrow>
           inn (level_off l + p) c = key (rs ! (8 * (32 ^ (h - 1 - l) * (32 * p + c)))))
      \<and> (32 * p + c = row_cnt lf (h - 1 - l) \<and> c \<noteq> 0 \<longrightarrow> inn (level_off l + p) c = MAX_KEY))"

subsection \<open>FixTree: the trees of the examples\<close>

text \<open>
  The records \<open>(1, 101), \<dots>, (n, 100 + n)\<close>, memory that holds other data before the
  constructor runs, and the tree built from the keys 1 to 24.
\<close>

definition recs_upto :: "nat \<Rightarrow> Record list" where
  "recs_upto n = map (\<lambda>i. \<lparr>key = of_nat i, val = of_nat (100 + i)\<rparr>) [1..<Suc n]"

definition junk_inner :: "nat \<Rightarrow> INNode" where
  "junk_inner = (\<lambda>_ _. 0x77)"

definition junk_leaf :: "nat \<Rightarrow> LFNode" where
  "junk_leaf = (\<lambda>_. \<lparr>keys = (\<lambda>_. 0x55), vals = (\<lambda>_. 0x66)\<rparr>)"

definition tree_1_24 :: Fixtree where
  "tree_1_24 = Fixtree_build 0xffffffffffffffff junk_inner junk_leaf 4096 8192 (recs_upto 24)"

text \<open>The same tree built in memory that held zeros.\<close>

definition tree_1_24_zero :: Fixtree where
  "tree_1_24_zero =
     Fixtree_build 0xffffffffffffffff (\<lambda>_ _. 0) (\<lambda>_. \<lparr>keys = (\<lambda>_. 0), vals = (\<lambda>_. 0)\<rparr>)
       4096 8192 (recs_upto 24)"

text \<open>
  The tree built from the keys 1 to 9 after \<^verbatim>\<open>try_remove(9)\<close>, \<^verbatim>\<open>insert(15, 115)\<close> and
  \<^verbatim>\<open>insert(12, 112)\<close>; and what \<^verbatim>\<open>try_remove(12)\<close> does there: the leaf selected, its keys
  before, the result, its keys after.
\<close>

definition tree_15_12 :: "Fixtree option" where
  "tree_15_12 =
     do {
       (r1, t1) \<leftarrow> Fixtree_try_remove 0xffffffffffffffff
                     (Fixtree_build 0xffffffffffffffff junk_inner junk_leaf 4096 8192 (recs_upto 9)) 9;
       (r2, t2) \<leftarrow> Fixtree_insert 0xffffffffffffffff t1 15 115;
       (r3, t3) \<leftarrow> Fixtree_insert 0xffffffffffffffff t2 12 112;
       Some t3
     }"

definition try_remove_12 :: "(32 word \<times> key_t list \<times> bool \<times> key_t list) option" where
  "try_remove_12 =
     do {
       t \<leftarrow> tree_15_12;
       cur_idx \<leftarrow> target_leaf t 12;
       (r, t') \<leftarrow> Fixtree_try_remove 0xffffffffffffffff t 12;
       Some (cur_idx, map (keys (leaf_nodes t (unat cur_idx))) [0..<LEAF_CARD], r,
             map (keys (leaf_nodes t' (unat cur_idx))) [0..<LEAF_CARD])
     }"

section \<open>The state word: facts\<close>

lemma xf_mask: "(0xf :: 64 word) = mask 4"
  by (simp add: mask_eq_exp_minus_1)

lemma ones_mask: "(0xffffffffffffffff :: 64 word) = - 1"
  by simp

lemma bit_cong: "bit s a \<Longrightarrow> a = b \<Longrightarrow> bit s b"
  by simp

lemma read_alt_w:
  assumes "idx \<le> 12"
  shows "drop_bit ((15 - idx) * 4)
           (push_bit 12 (take_bit 52 s) AND push_bit ((15 - idx) * 4) (0xf :: 64 word))
       = take_bit 4 (drop_bit (48 - 4 * idx) (s :: 64 word))"
  unfolding xf_mask
  apply (rule bit_word_eqI)
  using assms
  apply (auto simp add: bit_simps)
   apply (erule bit_cong, arith)+
  done

lemma read_alt:
  "idx \<le> 12 \<Longrightarrow> state_t_read s idx = unat (take_bit 4 (drop_bit (48 - 4 * idx) s))"
  unfolding state_t_read_def unpack_slotArray_def Let_def by (simp only: read_alt_w)

lemma slot_tb: "slot < 16 \<Longrightarrow> (of_nat slot :: 64 word) = take_bit 4 (of_nat slot)"
  by (simp add: take_bit_nat_eq_self flip: of_nat_take_bit)

lemma bit_p:
  "bit (push_bit 12 (take_bit 52 s) :: 64 word) k = (12 \<le> k \<and> k < 64 \<and> bit s (k - 12))"
  by (auto simp add: bit_simps)

lemma bit_m: "bit (drop_bit d (- 1) :: 64 word) k = (k + d < 64)"
  by (auto simp add: bit_simps)

lemma bit_b:
  "slot < 16 \<Longrightarrow> bit (push_bit e (of_nat slot :: 64 word)) k
     = (e \<le> k \<and> k < e + 4 \<and> k < 64 \<and> bit (of_nat slot :: 64 word) (k - e))"
  by (subst slot_tb, assumption, subst (2) slot_tb, assumption) (auto simp add: bit_simps)

text \<open>The slot array written by \<^verbatim>\<open>add\<close> and \<^verbatim>\<open>append\<close>, bit by bit.\<close>

lemma add_word:
  assumes "idx \<le> 12" "slot < 16"
  shows "bit (drop_bit 12 ((push_bit 12 (take_bit 52 s) AND NOT (drop_bit (idx * 4) (- 1)))
            + push_bit ((15 - idx) * 4) (of_nat slot :: 64 word)
            + drop_bit 4 (push_bit 12 (take_bit 52 s) AND drop_bit (idx * 4) (- 1)))) n
     = (n < 52 \<and> (if 52 - 4 * idx \<le> n then bit s n
         else if 48 - 4 * idx \<le> n then bit (of_nat slot :: 64 word) (n - (48 - 4 * idx))
         else bit (s :: 64 word) (n + 4)))"
proof -
  define a :: "64 word"
    where "a = push_bit 12 (take_bit 52 s) AND NOT (drop_bit (idx * 4) (- 1))"
  define b :: "64 word"
    where "b = push_bit ((15 - idx) * 4) (of_nat slot)"
  define c :: "64 word"
    where "c = drop_bit 4 (push_bit 12 (take_bit 52 s) AND drop_bit (idx * 4) (- 1))"
  have e: "(15 - idx) * 4 = 60 - 4 * idx" by simp
  have ba: "\<And>k. bit a k = (64 \<le> k + idx * 4 \<and> k < 64 \<and> bit s (k - 12))"
    using assms(1) unfolding a_def
    by (auto simp add: bit_and_iff bit_not_iff bit_p bit_m bit_mask_iff)
  have bb: "\<And>k. bit b k = (60 \<le> k + 4 * idx \<and> k + 4 * idx < 64
                \<and> bit (of_nat slot :: 64 word) (k + 4 * idx - 60))"
    using assms(1) unfolding b_def e bit_b[OF assms(2)]
    by (auto elim: bit_cong)
  have bc: "\<And>k. bit c k = (8 \<le> k \<and> k + 4 * idx < 60 \<and> bit s (k - 8))"
    using assms(1) unfolding c_def
    by (auto simp add: bit_drop_bit_eq bit_and_iff bit_p bit_m bit_mask_iff elim: bit_cong)
  have ab: "a + b = a OR b"
    by (rule disjunctive_add) (simp add: ba bb)
  have abc: "(a OR b) + c = (a OR b) OR c"
    by (rule disjunctive_add) (auto simp add: bit_or_iff ba bb bc)
  have "bit (drop_bit 12 (a + b + c)) n
      = (bit a (12 + n) \<or> bit b (12 + n) \<or> bit c (12 + n))"
    unfolding ab abc by (simp add: bit_drop_bit_eq bit_or_iff)
  also have "\<dots> = (n < 52 \<and> (if 52 - 4 * idx \<le> n then bit s n
         else if 48 - 4 * idx \<le> n then bit (of_nat slot :: 64 word) (n - (48 - 4 * idx))
         else bit (s :: 64 word) (n + 4)))"
  proof -
    consider "52 \<le> n + 4 * idx" | "48 \<le> n + 4 * idx" "n + 4 * idx < 52" | "n + 4 * idx < 48"
      by linarith
    then show ?thesis
    proof cases
      case 1
      then show ?thesis using assms(1) unfolding ba bb bc by (auto elim: bit_cong)
    next
      case 2
      have "12 + n + 4 * idx - 60 = n - (48 - 4 * idx)" using 2 assms(1) by linarith
      then show ?thesis using 2 assms(1) unfolding ba bb bc by auto
    next
      case 3
      have "12 + n - 8 = n + 4" by simp
      then show ?thesis using 3 assms(1) unfolding ba bb bc by (auto simp add: add.commute)
    qed
  qed
  finally show ?thesis unfolding a_def b_def c_def .
qed

text \<open>The slot array written by \<^verbatim>\<open>remove\<close>, bit by bit.\<close>

lemma remove_word:
  assumes "idx \<le> 12"
  shows "bit (drop_bit 12 ((push_bit 12 (take_bit 52 s) AND NOT (drop_bit (idx * 4) (- 1)))
            + push_bit 4 (push_bit 12 (take_bit 52 s) AND drop_bit 4 (drop_bit (idx * 4) (- 1))))) n
     = (n < 52 \<and> (if 52 - 4 * idx \<le> n then bit s n else 4 \<le> n \<and> bit (s :: 64 word) (n - 4)))"
proof -
  define a :: "64 word"
    where "a = push_bit 12 (take_bit 52 s) AND NOT (drop_bit (idx * 4) (- 1))"
  define c :: "64 word"
    where "c = push_bit 4 (push_bit 12 (take_bit 52 s) AND drop_bit 4 (drop_bit (idx * 4) (- 1)))"
  have ba: "\<And>k. bit a k = (64 \<le> k + idx * 4 \<and> k < 64 \<and> bit s (k - 12))"
    using assms(1) unfolding a_def
    by (auto simp add: bit_and_iff bit_not_iff bit_p bit_m bit_mask_iff)
  have bc: "\<And>k. bit c k = (16 \<le> k \<and> k + 4 * idx < 64 \<and> bit s (k - 16))"
    using assms(1) unfolding c_def
    by (auto simp add: bit_push_bit_iff bit_take_bit_iff bit_drop_bit_eq bit_and_iff bit_m
          bit_mask_iff elim: bit_cong)
  have ac: "a + c = a OR c"
    by (rule disjunctive_add) (auto simp add: ba bc)
  have "bit (drop_bit 12 (a + c)) n = (bit a (12 + n) \<or> bit c (12 + n))"
    unfolding ac by (simp add: bit_drop_bit_eq bit_or_iff)
  also have "\<dots> = (n < 52 \<and> (if 52 - 4 * idx \<le> n then bit s n
                      else 4 \<le> n \<and> bit (s :: 64 word) (n - 4)))"
  proof (cases "52 \<le> n + 4 * idx")
    case True
    then show ?thesis using assms(1) unfolding ba bc by (auto elim: bit_cong)
  next
    case False
    have "12 + n - 16 = n - 4" by simp
    then show ?thesis using False assms(1) unfolding ba bc by auto
  qed
  finally show ?thesis unfolding a_def c_def .
qed

lemma unat_tb4: "unat (take_bit 4 (of_nat c :: 64 word)) = c mod 16"
  by (simp add: take_bit_eq_mod unat_mod unat_of_nat mod_mod_cancel)

lemma tb4_lt: "unat (take_bit 4 (w :: 64 word)) < 16"
  using take_bit_nat_less_exp[of 4 "unat w"] by (simp add: unsigned_take_bit_eq)

lemma unpack_count_set_count: "unpack_count (set_count s c) = c mod 16"
proof -
  have "take_bit 4 (drop_bit 52 (set_count s c)) = (take_bit 4 (of_nat c) :: 64 word)"
    unfolding set_count_def by (rule bit_word_eqI) (auto simp add: bit_simps)
  then show ?thesis
    unfolding unpack_count_def by (simp only: unat_tb4)
qed

lemma bit_set_count_low: "n < 52 \<Longrightarrow> bit (set_count s c) n = bit s n"
  unfolding set_count_def by (auto simp add: bit_simps)

lemma bit_set_slotArray_low: "n < 52 \<Longrightarrow> bit (set_slotArray s v) n = bit v n"
  unfolding set_slotArray_def by (auto simp add: bit_simps)

lemma unpack_count_set_slotArray: "unpack_count (set_slotArray s v) = unpack_count s"
proof -
  have "take_bit 4 (drop_bit 52 (set_slotArray s v)) = take_bit 4 (drop_bit 52 s)"
    unfolding set_slotArray_def by (rule bit_word_eqI) (auto simp add: bit_simps)
  then show ?thesis unfolding unpack_count_def by simp
qed

lemma unpack_count_lt: "unpack_count s < 16"
  unfolding unpack_count_def by (rule tb4_lt)

lemma read_cong_bits:
  assumes "j \<le> 12"
    and "\<And>n. 48 - 4 * j \<le> n \<Longrightarrow> n < 52 - 4 * j \<Longrightarrow> bit s n = bit t n"
  shows "state_t_read s j = state_t_read t j"
proof -
  have "take_bit 4 (drop_bit (48 - 4 * j) s) = take_bit 4 (drop_bit (48 - 4 * j) t)"
    using assms by (intro bit_word_eqI) (auto simp add: bit_simps)
  then show ?thesis using assms(1) by (simp add: read_alt)
qed

lemma bit_add_low:
  assumes "idx \<le> 12" "slot < 16" "n < 52"
  shows "bit (state_t_add s idx slot) n =
     (if 52 - 4 * idx \<le> n then bit s n
      else if 48 - 4 * idx \<le> n then bit (of_nat slot :: 64 word) (n - (48 - 4 * idx))
      else bit s (n + 4))"
  unfolding state_t_add_def Let_def unpack_slotArray_def ones_mask
  using assms by (simp only: bit_set_count_low bit_set_slotArray_low add_word) simp

lemma bit_remove_low:
  assumes "idx \<le> 12" "n < 52"
  shows "bit (state_t_remove s idx) n =
     (if 52 - 4 * idx \<le> n then bit s n else 4 \<le> n \<and> bit s (n - 4))"
  unfolding state_t_remove_def Let_def unpack_slotArray_def ones_mask
  using assms by (simp only: bit_set_count_low bit_set_slotArray_low remove_word) simp

lemma count_add: "unpack_count (state_t_add s idx slot) = (unpack_count s + 1) mod 16"
  unfolding state_t_add_def Let_def
  by (simp only: unpack_count_set_count unpack_count_set_slotArray)

lemma count_remove: "unpack_count (state_t_remove s idx) = (unpack_count s + 15) mod 16"
  unfolding state_t_remove_def Let_def
  by (simp only: unpack_count_set_count unpack_count_set_slotArray)

lemma bit_set_slotArray: "bit (set_slotArray s v) n = (if n < 52 then bit v n else bit s n)"
  unfolding set_slotArray_def by (auto simp add: bit_simps dest: bit_imp_le_length)

lemma bit_set_count:
  "bit (set_count s c) n = (if 52 \<le> n \<and> n < 56 then bit c (n - 52) else bit s n)"
  unfolding set_count_def by (auto simp add: bit_simps dest: bit_imp_le_length)

lemma bit_set_sibling_version:
  "bit (set_sibling_version s b) n = (if n = 56 then odd b else bit s n)"
  unfolding set_sibling_version_def by (auto simp add: bit_simps)

lemma unpack_count_cong:
  assumes "\<And>n. 52 \<le> n \<Longrightarrow> n < 56 \<Longrightarrow> bit s n = bit t n"
  shows "unpack_count s = unpack_count t"
proof -
  have "take_bit 4 (drop_bit 52 s) = take_bit 4 (drop_bit 52 t)"
    using assms by (intro bit_word_eqI) (auto simp add: bit_simps)
  then show ?thesis by (simp add: unpack_count_def)
qed

lemma unpack_sibling_version_lt: "unpack_sibling_version s < 2"
  by (simp add: unpack_sibling_version_def)

lemma unpack_sibling_version_set: "unpack_sibling_version (set_sibling_version s b) = b mod 2"
  by (simp add: unpack_sibling_version_def bit_set_sibling_version odd_iff_mod_2_eq_one)

lemma unpack_sibling_version_set_count [simp]:
  "unpack_sibling_version (set_count s c) = unpack_sibling_version s"
  by (simp add: unpack_sibling_version_def bit_set_count)

lemma unpack_sibling_version_set_slotArray [simp]:
  "unpack_sibling_version (set_slotArray s v) = unpack_sibling_version s"
  by (simp add: unpack_sibling_version_def bit_set_slotArray)

lemma unpack_count_set_sibling_version [simp]:
  "unpack_count (set_sibling_version s b) = unpack_count s"
  by (rule unpack_count_cong) (simp add: bit_set_sibling_version)

lemma read_set_count [simp]: "j \<le> 12 \<Longrightarrow> state_t_read (set_count s c) j = state_t_read s j"
  by (rule read_cong_bits) (auto simp add: bit_set_count)

lemma read_set_sibling_version [simp]:
  "j \<le> 12 \<Longrightarrow> state_t_read (set_sibling_version s b) j = state_t_read s j"
  by (rule read_cong_bits) (auto simp add: bit_set_sibling_version)

lemma bit_append_low:
  assumes "idx \<le> 12" "slot < 16" "n < 52"
  shows "bit (state_t_append s idx slot) n =
     (if 52 - 4 * idx \<le> n then bit s n
      else if 48 - 4 * idx \<le> n then bit (of_nat slot :: 64 word) (n - (48 - 4 * idx))
      else bit s (n + 4))"
  unfolding state_t_append_def Let_def unpack_slotArray_def ones_mask
  using assms by (simp only: bit_set_slotArray_low add_word) simp

lemma unpack_count_append [simp]: "unpack_count (state_t_append s idx slot) = unpack_count s"
  unfolding state_t_append_def Let_def by (simp only: unpack_count_set_slotArray)

lemma unpack_sibling_version_append [simp]:
  "unpack_sibling_version (state_t_append s idx slot) = unpack_sibling_version s"
  unfolding state_t_append_def Let_def by simp

lemma unpack_sibling_version_add [simp]:
  "unpack_sibling_version (state_t_add s idx slot) = unpack_sibling_version s"
  unfolding state_t_add_def Let_def by simp

lemma unpack_sibling_version_remove [simp]:
  "unpack_sibling_version (state_t_remove s idx) = unpack_sibling_version s"
  unfolding state_t_remove_def Let_def by simp

text \<open>reads after insertion of a slot id at a position (add and append)\<close>

lemma nibble_eqI:
  assumes "\<And>n. n < 4 \<Longrightarrow> bit (t :: 64 word) (A + n) = bit (s :: 64 word) (B + n)"
  shows "take_bit 4 (drop_bit A t) = take_bit 4 (drop_bit B s)"
  using assms by (intro bit_word_eqI) (auto simp add: bit_take_bit_iff bit_drop_bit_eq)

lemma read_ins_bits:
  assumes i12: "idx \<le> 12" and sl: "slot < 16" and j12: "j \<le> 12"
    and low: "\<And>n. n < 52 \<Longrightarrow> bit t n =
     (if 52 - 4 * idx \<le> n then bit s n
      else if 48 - 4 * idx \<le> n then bit (of_nat slot :: 64 word) (n - (48 - 4 * idx))
      else bit s (n + 4))"
  shows "state_t_read t j = (if j < idx then state_t_read s j else if j = idx then slot else state_t_read s (j - 1))"
proof -
  define A where "A = 48 - 4 * j"
  consider "j < idx" | "j = idx" | "idx < j" by linarith
  then show ?thesis
  proof cases
    case 1
    have "state_t_read t j = state_t_read s j"
    proof (rule read_cong_bits[OF j12])
      fix n assume n: "48 - 4 * j \<le> n" "n < 52 - 4 * j"
      then have "n < 52" "52 - 4 * idx \<le> n" using 1 i12 by linarith+
      then show "bit t n = bit s n" by (simp add: low)
    qed
    then show ?thesis using 1 by simp
  next
    case 2
    have "take_bit 4 (drop_bit A t) = take_bit 4 (drop_bit 0 (of_nat slot :: 64 word))"
    proof (rule nibble_eqI)
      fix n :: nat assume n4: "n < 4"
      have a: "A + n < 52" "\<not> 52 - 4 * idx \<le> A + n" "48 - 4 * idx \<le> A + n"
          "A + n - (48 - 4 * idx) = n"
        using 2 i12 n4 unfolding A_def by linarith+
      show "bit t (A + n) = bit (of_nat slot :: 64 word) (0 + n)"
        using low[OF a(1)] a(2,3,4) by simp
    qed
    then have "take_bit 4 (drop_bit A t) = (of_nat slot :: 64 word)"
      using slot_tb[OF sl] by simp
    then have "state_t_read t j = slot"
      using j12 sl unfolding A_def by (simp add: read_alt unat_of_nat)
    then show ?thesis using 2 by simp
  next
    case 3
    define B where "B = 48 - 4 * (j - 1)"
    have j1: "j - 1 \<le> 12" using j12 by simp
    have BA: "B = A + 4" using 3 j12 unfolding A_def B_def by linarith
    have "take_bit 4 (drop_bit A t) = take_bit 4 (drop_bit B s)"
    proof (rule nibble_eqI)
      fix n :: nat assume n4: "n < 4"
      have a: "A + n < 52" "\<not> 52 - 4 * idx \<le> A + n" "\<not> 48 - 4 * idx \<le> A + n"
        using 3 j12 n4 unfolding A_def by linarith+
      show "bit t (A + n) = bit s (B + n)"
        using low[OF a(1)] a(2,3) unfolding BA by (simp add: ac_simps)
    qed
    then have "state_t_read t j = state_t_read s (j - 1)"
      unfolding read_alt[OF j12] read_alt[OF j1] A_def B_def by simp
    then show ?thesis using 3 by simp
  qed
qed

lemma read_append:
  assumes "idx \<le> 12" "slot < 16" "j \<le> 12"
  shows "state_t_read (state_t_append s idx slot) j =
     (if j < idx then state_t_read s j else if j = idx then slot else state_t_read s (j - 1))"
  using assms by (intro read_ins_bits) (simp_all add: bit_append_low)

lemma read_add:
  assumes "idx \<le> 12" "slot < 16" "j \<le> 12"
  shows "state_t_read (state_t_add s idx slot) j =
     (if j < idx then state_t_read s j else if j = idx then slot else state_t_read s (j - 1))"
  using assms by (intro read_ins_bits) (simp_all add: bit_add_low)

lemma read_remove:
  assumes "idx \<le> 12" "j < 12"
  shows "state_t_read (state_t_remove s idx) j =
     (if j < idx then state_t_read s j else state_t_read s (j + 1))"
proof (cases "j < idx")
  case True
  have "state_t_read (state_t_remove s idx) j = state_t_read s j"
  proof (rule read_cong_bits)
    show "j \<le> 12" using assms by simp
    fix n assume n: "48 - 4 * j \<le> n" "n < 52 - 4 * j"
    then have "n < 52" "52 - 4 * idx \<le> n" using True assms by linarith+
    then show "bit (state_t_remove s idx) n = bit s n" using assms by (simp add: bit_remove_low)
  qed
  then show ?thesis using True by simp
next
  case False
  define A where "A = 48 - 4 * j"
  define B where "B = 48 - 4 * (j + 1)"
  have j12: "j \<le> 12" "j + 1 \<le> 12" using assms by simp_all
  have AB: "A = B + 4" using assms unfolding A_def B_def by simp
  have "take_bit 4 (drop_bit A (state_t_remove s idx)) = take_bit 4 (drop_bit B s)"
  proof (rule nibble_eqI)
    fix n :: nat assume n4: "n < 4"
    have a: "A + n < 52" "\<not> 52 - 4 * idx \<le> A + n" "4 \<le> A + n"
      using False assms n4 unfolding A_def by linarith+
    have "bit (state_t_remove s idx) (A + n) = bit s (A + n - 4)"
      using a assms(1) by (simp add: bit_remove_low)
    then show "bit (state_t_remove s idx) (A + n) = bit s (B + n)"
      unfolding AB by simp
  qed
  then have "state_t_read (state_t_remove s idx) j = state_t_read s (j + 1)"
    unfolding read_alt[OF j12(1)] read_alt[OF j12(2)] A_def B_def by simp
  then show ?thesis using False by simp
qed

section \<open>WOTree nodes: facts\<close>

lemma slot_scan_empty:
  "unpack_count (state n) = 0 \<Longrightarrow> slot_scan stop n 0 slotid = Some (0, slotid)"
  by (subst slot_scan.simps) simp

lemma update_always_true: "wotree256_update m k v = Some (b, m') \<Longrightarrow> b"
  by (auto simp add: wotree256_update_def split: option.splits)

lemma copy_loop_spec:
  assumes "\<forall>i \<in> set is. state_t_read (state n) i < CARDINALITY"
    and "j + length is \<le> 13"
  shows "\<exists>sn'. copy_loop n sp is (sn, j, evs)
           = Some (sn', j + length is,
                   evs @ concat (map (\<lambda>q. [Wr (Rec sp q), Wr (State sp)]) [j..<j + length is]))
        \<and> unpack_count (state sn') = unpack_count (state sn)
        \<and> unpack_sibling_version (state sn') = unpack_sibling_version (state sn)
        \<and> leftmost_ptr sn' = leftmost_ptr sn
        \<and> siblings sn' = siblings sn
        \<and> (\<forall>q < j. state_t_read (state sn') q = state_t_read (state sn) q \<and> recs sn' q = recs sn q)
        \<and> (\<forall>q < length is. state_t_read (state sn') (j + q) = j + q
                \<and> recs sn' (j + q) = recs n (state_t_read (state n) (is ! q)))"
  using assms
proof (induction "is" arbitrary: sn j evs)
  case Nil
  then show ?case by simp
next
  case (Cons i "is")
  let ?r = "recs n (state_t_read (state n) i)"
  let ?sn1 = "sn\<lparr>recs := (recs sn)(j := ?r), state := state_t_append (state sn) j j\<rparr>"
  have ri: "rec_at n (state_t_read (state n) i) = Some ?r"
    using Cons.prems(1) by (simp add: rec_at_def)
  have j13: "j < 13" using Cons.prems(2) by simp
  have ap: "Node_append sp sn ?r j j = Some (?sn1, [Wr (Rec sp j), Wr (State sp)])"
    using j13 by (simp add: Node_append_def CARDINALITY_def)
  from Cons.IH[of "Suc j" ?sn1 "evs @ [Wr (Rec sp j), Wr (State sp)]"] Cons.prems
  obtain sn' where IH:
    "copy_loop n sp is (?sn1, Suc j, evs @ [Wr (Rec sp j), Wr (State sp)])
       = Some (sn', Suc j + length is,
               (evs @ [Wr (Rec sp j), Wr (State sp)])
               @ concat (map (\<lambda>q. [Wr (Rec sp q), Wr (State sp)]) [Suc j..<Suc j + length is]))"
    "unpack_count (state sn') = unpack_count (state ?sn1)"
    "unpack_sibling_version (state sn') = unpack_sibling_version (state ?sn1)"
    "leftmost_ptr sn' = leftmost_ptr ?sn1"
    "siblings sn' = siblings ?sn1"
    "\<forall>q < Suc j. state_t_read (state sn') q = state_t_read (state ?sn1) q \<and> recs sn' q = recs ?sn1 q"
    "\<forall>q < length is. state_t_read (state sn') (Suc j + q) = Suc j + q
                \<and> recs sn' (Suc j + q) = recs n (state_t_read (state n) (is ! q))"
    by auto
  have upt: "[j..<j + length (i # is)] = j # [Suc j..<Suc j + length is]"
    by (subst upt_rec) simp
  have rd: "\<And>q. q \<le> j \<Longrightarrow> state_t_read (state ?sn1) q = (if q < j then state_t_read (state sn) q else j)"
    using j13 by (simp add: read_append)
  show ?case
  proof (intro exI[of _ sn'] conjI allI impI)
    show "copy_loop n sp (i # is) (sn, j, evs) =
      Some (sn', j + length (i # is),
            evs @ concat (map (\<lambda>q. [Wr (Rec sp q), Wr (State sp)]) [j..<j + length (i # is)]))"
      unfolding upt using ri ap IH(1) by simp
    show "unpack_count (state sn') = unpack_count (state sn)" using IH(2) by simp
    show "unpack_sibling_version (state sn') = unpack_sibling_version (state sn)" using IH(3) by simp
    show "leftmost_ptr sn' = leftmost_ptr sn" using IH(4) by simp
    show "siblings sn' = siblings sn" using IH(5) by simp
  next
    fix q assume "q < j"
    then show "state_t_read (state sn') q = state_t_read (state sn) q" using IH(6) rd[of q] by simp
    show "recs sn' q = recs sn q" using IH(6) \<open>q < j\<close> by simp
  next
    fix q assume q: "q < length (i # is)"
    show "state_t_read (state sn') (j + q) = j + q"
    proof (cases q)
      case 0
      then show ?thesis using IH(6) rd[of j] by simp
    next
      case (Suc q')
      then show ?thesis using IH(7) q by simp
    qed
    show "recs sn' (j + q) = recs n (state_t_read (state n) ((i # is) ! q))"
    proof (cases q)
      case 0
      then show ?thesis using IH(6) by simp
    next
      case (Suc q')
      then show ?thesis using IH(7) q by simp
    qed
  qed
qed


lemma new_Node_eq:
  assumes "brk m \<noteq> NULL" "unat (brk m) + 256 < 2 ^ 64"
  shows "new_Node MAX_KEY m =
     Some (brk m, put (brk m) (Node_ctor MAX_KEY (raw m (brk m)))
                    [Wr (State (brk m)), Wr (Leftmost (brk m)), Wr (Sibling (brk m) 0),
                     Wr (Sibling (brk m) 1)] (m\<lparr>brk := brk m + 256\<rparr>))"
  using assms by (simp add: new_Node_def galc_malloc_def)

lemma deref_put: "deref (put p n evs m) q = (if q = NULL then None else if q = p then Some n else deref m q)"
  by (simp add: deref_def put_def)

lemma deref_brk_update [simp]: "deref (m\<lparr>brk := b\<rparr>) q = deref m q"
  by (simp add: deref_def)

lemma trace_put [simp]: "trace (put p n evs m) = trace m @ evs"
  by (simp add: put_def)

lemma Node_split_spec:
  assumes A1: "deref m0 p = Some n"
    and A2: "unpack_count (state n) = 13"
    and A3: "\<forall>i<13. state_t_read (state n) i < 13"
    and A4: "brk m0 \<noteq> NULL" "unat (brk m0) + 256 < 2 ^ 64" "brk m0 \<noteq> p"
    and a: "a = (if leftmost_ptr n = NULL then 6 else 7)"
  shows "\<exists>m' sn n'.
      Node_split MAX_KEY m0 p = Some (key (recs n (state_t_read (state n) 6)), brk m0, m')
    \<and> deref m' (brk m0) = Some sn \<and> deref m' p = Some n'
    \<and> unpack_count (state sn) = 13 - a \<and> unpack_count (state n') = 6
    \<and> leftmost_ptr sn
          = (if leftmost_ptr n = NULL then NULL else val (recs n (state_t_read (state n) 6)))
    \<and> (\<forall>j<13 - a. state_t_read (state sn) j = j
              \<and> recs sn j = recs n (state_t_read (state n) (a + j)))
    \<and> (\<forall>j<6. state_t_read (state n') j = state_t_read (state n) j)
    \<and> recs n' = recs n \<and> leftmost_ptr n' = leftmost_ptr n
    \<and> state n' = set_sibling_version (set_count (state n) 22)
                    ((unpack_sibling_version (state n) + 1) mod 2)
    \<and> unpack_sibling_version (state sn) = 0
    \<and> siblings sn 0 = siblings n (unpack_sibling_version (state n))
    \<and> unpack_sibling_version (state n') = (unpack_sibling_version (state n) + 1) mod 2
    \<and> siblings n' (unpack_sibling_version (state n'))
         = \<lparr>key = key (recs n (state_t_read (state n) 6)), val = brk m0\<rparr>
    \<and> trace m' = trace m0
         @ [Wr (State (brk m0)), Wr (Leftmost (brk m0)), Wr (Sibling (brk m0) 0),
            Wr (Sibling (brk m0) 1)]
         @ (if leftmost_ptr n = NULL then [] else [Wr (Leftmost (brk m0))])
         @ concat (map (\<lambda>q. [Wr (Rec (brk m0) q), Wr (State (brk m0))]) [0..<13 - a])
         @ [Wr (State (brk m0)), Wr (State (brk m0)), Wr (Sibling (brk m0) 0),
            Clwb (State (brk m0)) 64, Clwb (Rec (brk m0) 1) (16 * (12 - a)),
            Wr (Sibling p ((unpack_sibling_version (state n) + 1) mod 2)), Mfence,
            PersistAssign (State p) (state n')]"
proof -
  let ?sp = "brk m0"
  let ?mrec = "recs n (state_t_read (state n) 6)"
  let ?sn0 = "Node_ctor MAX_KEY (raw m0 ?sp)"
  let ?m1 = "put ?sp ?sn0 [Wr (State ?sp), Wr (Leftmost ?sp), Wr (Sibling ?sp 0), Wr (Sibling ?sp 1)]
               (m0\<lparr>brk := brk m0 + 256\<rparr>)"
  define sn0' where "sn0' = (if leftmost_ptr n = NULL then ?sn0 else ?sn0\<lparr>leftmost_ptr := val ?mrec\<rparr>)"
  define evs0 where "evs0 = (if leftmost_ptr n = NULL then [] else [Wr (Leftmost ?sp)])"
  define ps where "ps = [a..<13]"
  define c where "c = 13 - a"
  define es where "es = concat (map (\<lambda>q. [Wr (Rec ?sp q), Wr (State ?sp)]) [0..<c])"
  have a67: "a = 6 \<or> a = 7" using a by simp
  have pn: "p \<noteq> NULL" using A1 by (auto simp add: deref_def split: if_splits)
  have nn: "new_Node MAX_KEY m0 = Some (?sp, ?m1)"
    using new_Node_eq[OF A4(1,2)] by simp
  have d1: "deref ?m1 ?sp = Some ?sn0" using A4(1) by (simp add: deref_put)
  have mrec: "rec_at n (state_t_read (state n) 6) = Some ?mrec"
    using A3 by (simp add: rec_at_def CARDINALITY_def)
  have ps: "length ps = c" "\<And>q. q < c \<Longrightarrow> ps ! q = a + q"
    unfolding ps_def c_def by simp_all
  have ps3: "leftmost_ptr n = NULL \<Longrightarrow> [unpack_count (state n) div 2..<unpack_count (state n)] = ps"
    "leftmost_ptr n \<noteq> NULL \<Longrightarrow> [unpack_count (state n) div 2 + 1..<unpack_count (state n)] = ps"
    unfolding ps_def using A2 a by (simp_all del: upt_rec_numeral)
  have "\<forall>i \<in> set ps. state_t_read (state n) i < CARDINALITY"
    using A3 by (simp add: CARDINALITY_def ps_def)
  moreover have "0 + length ps \<le> 13" using ps(1) c_def by simp
  ultimately have "\<exists>sn'. copy_loop n ?sp ps (sn0', 0, evs0)
           = Some (sn', 0 + length ps,
                   evs0 @ concat (map (\<lambda>q. [Wr (Rec ?sp q), Wr (State ?sp)]) [0..<0 + length ps]))
        \<and> unpack_count (state sn') = unpack_count (state sn0')
        \<and> unpack_sibling_version (state sn') = unpack_sibling_version (state sn0')
        \<and> leftmost_ptr sn' = leftmost_ptr sn0'
        \<and> siblings sn' = siblings sn0'
        \<and> (\<forall>q < 0. state_t_read (state sn') q = state_t_read (state sn0') q \<and> recs sn' q = recs sn0' q)
        \<and> (\<forall>q < length ps. state_t_read (state sn') (0 + q) = 0 + q
                \<and> recs sn' (0 + q) = recs n (state_t_read (state n) (ps ! q)))"
    by (rule copy_loop_spec)
  then obtain sn1 where cl:
    "copy_loop n ?sp ps (sn0', 0, evs0) = Some (sn1, c, evs0 @ es)"
    "leftmost_ptr sn1 = leftmost_ptr sn0'"
    "\<forall>q < c. state_t_read (state sn1) q = q
                \<and> recs sn1 q = recs n (state_t_read (state n) (ps ! q))"
    unfolding ps(1) es_def by auto
  let ?sv = "unpack_sibling_version (state n)"
  let ?shadow = "(?sv + 1) mod 2"
  let ?sn2 = "sn1\<lparr>state := set_sibling_version (set_count (state sn1) c) 0,
                   siblings := (siblings sn1)(0 := siblings n ?sv)\<rparr>"
  let ?st' = "set_sibling_version (set_count (state n) 22) ?shadow"
  let ?n' = "n\<lparr>siblings := (siblings n)(?shadow := \<lparr>key = key ?mrec, val = ?sp\<rparr>),
               state := ?st'\<rparr>"
  let ?m2 = "put ?sp ?sn2 (evs0 @ es
                @ [Wr (State ?sp), Wr (State ?sp), Wr (Sibling ?sp 0),
                           Clwb (State ?sp) 64, Clwb (Rec ?sp 1) (16 * (c - 1))]) ?m1"
  let ?m' = "put p ?n' [Wr (Sibling p ?shadow), Mfence, PersistAssign (State p) ?st'] ?m2"
  have split: "Node_split MAX_KEY m0 p = Some (key ?mrec, ?sp, ?m')"
  proof (cases "leftmost_ptr n = NULL")
    case True
    then have c7: "c = 7" "sn0' = ?sn0" "evs0 = []" using a by (simp_all add: c_def sn0'_def evs0_def)
    show ?thesis
      unfolding Node_split_def A1 Option.bind.simps Let_def
      using True A2 mrec nn d1 cl(1) ps3(1)[OF True] unfolding c7
      by simp
  next
    case False
    then have c6: "c = 6" "sn0' = ?sn0\<lparr>leftmost_ptr := val ?mrec\<rparr>" "evs0 = [Wr (Leftmost ?sp)]"
      using a by (simp_all add: c_def sn0'_def evs0_def)
    show ?thesis
      unfolding Node_split_def A1 Option.bind.simps Let_def
      using False A2 mrec nn d1 cl(1) ps3(2)[OF False] unfolding c6
      by simp
  qed
  have c13: "c < 16" "c - 1 = 12 - a" using a67 by (auto simp add: c_def)
  show ?thesis
  proof (rule exI[of _ ?m'], rule exI[of _ ?sn2], rule exI[of _ ?n'], intro conjI)
    show "Node_split MAX_KEY m0 p = Some (key ?mrec, ?sp, ?m')"
      by (rule split)
    show "deref ?m' ?sp = Some ?sn2" using A4 by (simp add: deref_put)
    show "deref ?m' p = Some ?n'" using pn by (simp add: deref_put)
    show "unpack_count (state ?sn2) = 13 - a" using c13 by (simp add: unpack_count_set_count c_def)
    show "unpack_count (state ?n') = 6" by (simp add: unpack_count_set_count)
    show "leftmost_ptr ?sn2 = (if leftmost_ptr n = NULL then NULL else val ?mrec)"
      using cl(2) by (simp add: Node_ctor_def sn0'_def)
    show "\<forall>j<13 - a. state_t_read (state ?sn2) j = j \<and> recs ?sn2 j = recs n (state_t_read (state n) (a + j))"
      using cl(3) ps(2) a67 by (auto simp add: c_def)
    show "\<forall>j<6. state_t_read (state ?n') j = state_t_read (state n) j" by simp
    show "recs ?n' = recs n" by simp
    show "leftmost_ptr ?n' = leftmost_ptr n" by simp
    show "state ?n' = ?st'" by simp
    show "unpack_sibling_version (state ?sn2) = 0" by (simp add: unpack_sibling_version_set)
    show "siblings ?sn2 0 = siblings n ?sv" by simp
    show "unpack_sibling_version (state ?n') = ?shadow" by (simp add: unpack_sibling_version_set)
    show "siblings ?n' (unpack_sibling_version (state ?n')) = \<lparr>key = key ?mrec, val = ?sp\<rparr>"
      by (simp add: unpack_sibling_version_set)
    show "trace ?m' = trace m0
         @ [Wr (State ?sp), Wr (Leftmost ?sp), Wr (Sibling ?sp 0), Wr (Sibling ?sp 1)]
         @ (if leftmost_ptr n = NULL then [] else [Wr (Leftmost ?sp)])
         @ concat (map (\<lambda>q. [Wr (Rec ?sp q), Wr (State ?sp)]) [0..<13 - a])
         @ [Wr (State ?sp), Wr (State ?sp), Wr (Sibling ?sp 0),
            Clwb (State ?sp) 64, Clwb (Rec ?sp 1) (16 * (12 - a)),
            Wr (Sibling p ?shadow), Mfence,
            PersistAssign (State p) (state ?n')]"
      unfolding c13(2) by (simp add: es_def evs0_def c_def)
  qed
qed

lemma all_lt_13: "(\<forall>i<13::nat. P i) = list_all P [0..<13]"
  by (auto simp add: list_all_iff)

lemma full_node_facts:
  "deref (full_node lm) 256 = nodes (full_node lm) 256"
  "brk (full_node lm) \<noteq> NULL" "unat (brk (full_node lm)) + 256 < 2 ^ 64"
  "brk (full_node lm) \<noteq> 256" "brk (full_node lm) = 512" "trace (full_node lm) = []"
  by (simp_all add: full_node_def deref_def NULL_def)

lemma full_node_node:
  "nodes (full_node lm) 256 = Some n \<Longrightarrow>
     unpack_count (state n) = 13 \<and> (\<forall>i<13. state_t_read (state n) i < 13)
     \<and> leftmost_ptr n = lm \<and> state_t_read (state n) 6 = 6
     \<and> unpack_sibling_version (state n) = 0"
  unfolding all_lt_13
  apply (simp add: full_node_def)
  apply (erule subst)
  apply simp
  apply code_simp
  done


lemma full_leaf_split:
  obtains m' sn n' where
    "Node_split 0xffffffffffffffff (full_node NULL) 256 = Some (7, 512, m')"
    "deref m' 512 = Some sn" "deref m' 256 = Some n'"
    "unpack_count (state sn) = 7" "unpack_count (state n') = 6"
    "trace m' = [Wr (State 512), Wr (Leftmost 512), Wr (Sibling 512 0), Wr (Sibling 512 1)]
         @ concat (map (\<lambda>q. [Wr (Rec 512 q), Wr (State 512)]) [0..<7])
         @ [Wr (State 512), Wr (State 512), Wr (Sibling 512 0),
            Clwb (State 512) 64, Clwb (Rec 512 1) 96,
            Wr (Sibling 256 1), Mfence, PersistAssign (State 256) (state n')]"
    "state n' = set_sibling_version (set_count 0xd0123456789abc 22) 1"
proof -
  obtain n where n: "nodes (full_node NULL) 256 = Some n"
    by (simp add: full_node_def)
  note f = full_node_node[OF n]
  have d: "deref (full_node NULL) 256 = Some n" using n full_node_facts(1) by simp
  have k: "key (recs n 6) = 7" "state n = 0xd0123456789abc" using n by (auto simp add: full_node_def)
  have a: "6 = (if leftmost_ptr n = NULL then 6 else (7::nat))" using f by simp
  from Node_split_spec[OF d _ _ _ _ _ a, of "0xffffffffffffffff"] f full_node_facts(2-6)[of NULL]
  obtain m' sn n' where s:
    "Node_split 0xffffffffffffffff (full_node NULL) 256 = Some (key (recs n 6), 512, m')"
    "deref m' 512 = Some sn" "deref m' 256 = Some n'"
    "unpack_count (state sn) = 7" "unpack_count (state n') = 6"
    "trace m' = [Wr (State 512), Wr (Leftmost 512), Wr (Sibling 512 0), Wr (Sibling 512 1)]
         @ concat (map (\<lambda>q. [Wr (Rec 512 q), Wr (State 512)]) [0..<7])
         @ [Wr (State 512), Wr (State 512), Wr (Sibling 512 0),
            Clwb (State 512) 64, Clwb (Rec 512 1) 96,
            Wr (Sibling 256 1), Mfence, PersistAssign (State 256) (state n')]"
    "state n' = set_sibling_version (set_count (state n) 22) 1"
    by (auto simp del: upt_rec_numeral)
  show ?thesis using that[OF _ s(2-6)] s(1,7) k by simp
qed

lemma st_val: "set_sibling_version (set_count 0xd0123456789abc 22) 1 = 0x160123456789abc"
  by code_simp

lemma writes_to_copies:
  "list_all (writes_to sp) (concat (map (\<lambda>q. [Wr (Rec sp q), Wr (State sp)]) qs))"
  by (induction qs) simp_all

section \<open>FixTree: facts\<close>

lemma card_lt_Suc:
  "card {i. i < Suc n \<and> P i} = (if P n then Suc (card {i. i < n \<and> P i}) else card {i. i < n \<and> P i})"
proof -
  have fin: "finite {i. i < n \<and> P i}" by simp
  show ?thesis
  proof (cases "P n")
    case True
    have "{i. i < Suc n \<and> P i} = insert n {i. i < n \<and> P i}"
      using True by (auto simp: less_Suc_eq)
    thus ?thesis using True fin by simp
  next
    case False
    have "{i. i < Suc n \<and> P i} = {i. i < n \<and> P i}"
      using False by (auto simp: less_Suc_eq)
    thus ?thesis using False by simp
  qed
qed

lemma remove_scan_inv:
  assumes k0: "keys lf 0 \<noteq> MAX_KEY" "keys lf 0 \<le> k"
  shows "case fold (remove_step MAX_KEY lf k) [1..<Suc n] (keys lf 0, 0, 1) of (mk, mi, rc) \<Rightarrow>
           mi < Suc n \<and> keys lf mi = mk \<and> mk \<le> k \<and> mk \<noteq> MAX_KEY
           \<and> (\<forall>i < Suc n. keys lf i \<noteq> MAX_KEY \<and> keys lf i \<le> k \<longrightarrow> keys lf i \<le> mk)
           \<and> (\<forall>i < mi. keys lf i \<noteq> MAX_KEY \<and> keys lf i \<le> k \<longrightarrow> keys lf i < mk)
           \<and> rc = card {i. i < Suc n \<and> keys lf i \<noteq> MAX_KEY}"
proof (induction n)
  case 0
  have "{i. i < Suc 0 \<and> keys lf i \<noteq> MAX_KEY} = {0}" using k0 by auto
  thus ?case using k0 by simp
next
  case (Suc n)
  obtain mk mi rc where f: "fold (remove_step MAX_KEY lf k) [1..<Suc n] (keys lf 0, 0, 1) = (mk, mi, rc)"
    by (cases "fold (remove_step MAX_KEY lf k) [1..<Suc n] (keys lf 0, 0, 1)") auto
  have step: "fold (remove_step MAX_KEY lf k) [1..<Suc (Suc n)] (keys lf 0, 0, 1)
               = remove_step MAX_KEY lf k (Suc n) (mk, mi, rc)"
    using f by simp
  from Suc f have I: "mi < Suc n" "keys lf mi = mk" "mk \<le> k" "mk \<noteq> MAX_KEY"
    "\<forall>i < Suc n. keys lf i \<noteq> MAX_KEY \<and> keys lf i \<le> k \<longrightarrow> keys lf i \<le> mk"
    "\<forall>i < mi. keys lf i \<noteq> MAX_KEY \<and> keys lf i \<le> k \<longrightarrow> keys lf i < mk"
    "rc = card {i. i < Suc n \<and> keys lf i \<noteq> MAX_KEY}"
    by auto
  let ?x = "keys lf (Suc n)"
  have cnt: "card {i. i < Suc (Suc n) \<and> keys lf i \<noteq> MAX_KEY}
             = (if ?x \<noteq> MAX_KEY then Suc rc else rc)"
    using I(7) by (simp add: card_lt_Suc[of "Suc n"])
  consider (skip) "?x = MAX_KEY" | (take) "?x \<noteq> MAX_KEY" "?x \<le> k" "?x > mk"
    | (keep) "?x \<noteq> MAX_KEY" "\<not> (?x \<le> k \<and> ?x > mk)"
    by blast
  thus ?case
  proof cases
    case skip
    have "remove_step MAX_KEY lf k (Suc n) (mk, mi, rc) = (mk, mi, rc)"
      using skip by (simp add: remove_step_def)
    moreover have "\<forall>i < Suc (Suc n). keys lf i \<noteq> MAX_KEY \<and> keys lf i \<le> k \<longrightarrow> keys lf i \<le> mk"
      using I(5) skip by (simp add: less_Suc_eq[of _ "Suc n"])
    ultimately show ?thesis
      unfolding step using I(1-4,6) cnt skip by simp
  next
    case take
    have "remove_step MAX_KEY lf k (Suc n) (mk, mi, rc) = (?x, Suc n, rc + 1)"
      using take by (simp add: remove_step_def)
    moreover have "\<forall>i < Suc (Suc n). keys lf i \<noteq> MAX_KEY \<and> keys lf i \<le> k \<longrightarrow> keys lf i \<le> ?x"
    proof (intro allI impI)
      fix i assume "i < Suc (Suc n)" and h: "keys lf i \<noteq> MAX_KEY \<and> keys lf i \<le> k"
      then consider "i = Suc n" | "i < Suc n" by linarith
      thus "keys lf i \<le> ?x"
      proof cases
        case 1 thus ?thesis by simp
      next
        case 2
        hence "keys lf i \<le> mk" using I(5) h by blast
        thus ?thesis using take(3) by simp
      qed
    qed
    moreover have "\<forall>i < Suc n. keys lf i \<noteq> MAX_KEY \<and> keys lf i \<le> k \<longrightarrow> keys lf i < ?x"
    proof (intro allI impI)
      fix i assume "i < Suc n" and h: "keys lf i \<noteq> MAX_KEY \<and> keys lf i \<le> k"
      hence "keys lf i \<le> mk" using I(5) by blast
      thus "keys lf i < ?x" using take(3) by simp
    qed
    ultimately show ?thesis
      unfolding step using cnt take by simp
  next
    case keep
    have "remove_step MAX_KEY lf k (Suc n) (mk, mi, rc) = (mk, mi, rc + 1)"
      using keep by (auto simp add: remove_step_def)
    moreover have "\<forall>i < Suc (Suc n). keys lf i \<noteq> MAX_KEY \<and> keys lf i \<le> k \<longrightarrow> keys lf i \<le> mk"
    proof (intro allI impI)
      fix i assume "i < Suc (Suc n)" and h: "keys lf i \<noteq> MAX_KEY \<and> keys lf i \<le> k"
      then consider "i = Suc n" | "i < Suc n" by linarith
      thus "keys lf i \<le> mk"
      proof cases
        case 1 thus ?thesis using keep(2) h by auto
      next
        case 2 thus ?thesis using I(5) h by blast
      qed
    qed
    ultimately show ?thesis
      unfolding step using I(1-4,6) cnt keep by simp
  qed
qed

lemma remove_scan_spec:
  assumes k0: "keys lf 0 \<noteq> MAX_KEY" "keys lf 0 \<le> k"
  obtains mk mi where
    "remove_scan MAX_KEY lf k = (mk, mi, card {i. i < LEAF_CARD \<and> keys lf i \<noteq> MAX_KEY})"
    "mi < LEAF_CARD" "keys lf mi = mk" "mk \<le> k" "mk \<noteq> MAX_KEY"
    "\<forall>i < LEAF_CARD. keys lf i \<noteq> MAX_KEY \<and> keys lf i \<le> k \<longrightarrow> keys lf i \<le> mk"
    "\<forall>i < mi. keys lf i \<noteq> MAX_KEY \<and> keys lf i \<le> k \<longrightarrow> keys lf i < mk"
proof -
  have eq: "remove_scan MAX_KEY lf k = fold (remove_step MAX_KEY lf k) [1..<Suc 15] (keys lf 0, 0, 1)"
    unfolding remove_scan_def remove_step_def LEAF_CARD_def by simp
  obtain mk mi rc where f: "remove_scan MAX_KEY lf k = (mk, mi, rc)"
    by (cases "remove_scan MAX_KEY lf k") auto
  from remove_scan_inv[OF k0, of 15] f eq
  have "mi < 16 \<and> keys lf mi = mk \<and> mk \<le> k \<and> mk \<noteq> MAX_KEY
           \<and> (\<forall>i < 16. keys lf i \<noteq> MAX_KEY \<and> keys lf i \<le> k \<longrightarrow> keys lf i \<le> mk)
           \<and> (\<forall>i < mi. keys lf i \<noteq> MAX_KEY \<and> keys lf i \<le> k \<longrightarrow> keys lf i < mk)
           \<and> rc = card {i. i < 16 \<and> keys lf i \<noteq> MAX_KEY}"
    by simp
  thus ?thesis using that[of mk mi] f by (simp add: LEAF_CARD_def)
qed

lemma tree_1_24_leaf2:
  "map (keys (leaf_nodes tree_1_24 2)) [0..<16]
     = [17, 18, 19, 20, 21, 22, 23, 24, 0xffffffffffffffff, 0xffffffffffffffff,
        0xffffffffffffffff, 0xffffffffffffffff, 0xffffffffffffffff, 0xffffffffffffffff,
        0xffffffffffffffff, 0xffffffffffffffff]"
  by code_simp

subsection \<open>The constructor\<close>

lemma bit_len_le: "n < 2 ^ m \<Longrightarrow> bit_len n \<le> m"
proof (induction m arbitrary: n)
  case 0
  thus ?case by (subst bit_len.simps) simp
next
  case (Suc m)
  have "n div 2 < 2 ^ m" using Suc.prems by simp
  hence "bit_len (n div 2) \<le> m" by (rule Suc.IH)
  thus ?case by (subst bit_len.simps) simp
qed

lemma float_of_exact: "n \<le> 2 ^ 24 \<Longrightarrow> float_of n = n"
proof (cases "n = 2 ^ 24")
  case True
  have "bit_len (2 ^ 24) = 25" by (simp add: bit_len.simps)
  thus ?thesis using True by (simp add: float_of_def Let_def)
next
  case False
  assume "n \<le> 2 ^ 24"
  hence "n < 2 ^ 24" using False by simp
  hence "bit_len n \<le> 24" by (rule bit_len_le)
  thus ?thesis by (simp add: float_of_def)
qed

lemma ceil_float_div_exact: "n \<le> 2 ^ 24 \<Longrightarrow> 0 < d \<Longrightarrow> ceil_float_div n d = (n + (d - 1)) div d"
  by (simp add: ceil_float_div_def float_of_exact)

lemma ceil_log32_pos: "0 < ceil_log32 x"
  by (subst ceil_log32.simps) simp

lemma ceil_log32_upper: "x \<le> 32 ^ ceil_log32 x"
proof (induction x rule: ceil_log32.induct)
  case (1 x)
  show ?case
  proof (cases "x \<le> 32")
    case True
    thus ?thesis by (subst ceil_log32.simps) simp
  next
    case False
    define P :: nat where "P = 32 ^ ceil_log32 ((x + 31) div 32)"
    have "(x + 31) div 32 \<le> P" using 1 False by (simp add: P_def)
    moreover have "x \<le> 32 * ((x + 31) div 32)" by arith
    ultimately have "x \<le> 32 * P" by linarith
    moreover have "ceil_log32 x = Suc (ceil_log32 ((x + 31) div 32))"
      using False by (subst ceil_log32.simps) simp
    ultimately show ?thesis by (simp add: P_def)
  qed
qed

lemma ceil_log32_lower: "32 < x \<Longrightarrow> 32 ^ (ceil_log32 x - 1) < x"
proof (induction x rule: ceil_log32.induct)
  case (1 x)
  let ?y = "(x + 31) div 32"
  have e: "ceil_log32 x = Suc (ceil_log32 ?y)" using 1(2) by (subst ceil_log32.simps) simp
  show ?case
  proof (cases "32 < ?y")
    case True
    define P :: nat where "P = 32 ^ (ceil_log32 ?y - 1)"
    have "P < ?y" using 1 True by (simp add: P_def)
    moreover have "32 * ?y \<le> x + 31" by arith
    ultimately have "32 * P < x" by linarith
    moreover have "32 * P = 32 ^ ceil_log32 ?y"
      using ceil_log32_pos[of ?y] by (cases "ceil_log32 ?y") (simp_all add: P_def)
    ultimately show ?thesis using e by simp
  next
    case False
    hence "ceil_log32 ?y = 1" by (subst ceil_log32.simps) simp
    thus ?thesis using e 1(2) by simp
  qed
qed

lemma level_off_closed: "31 * level_off h + 1 = 32 ^ h"
  by (induction h) (simp_all add: INNER_CARD_def)

lemma level_off_div: "(32 ^ h - 1) div 31 = level_off h"
proof -
  have "(32::nat) ^ h - 1 = 31 * level_off h" using level_off_closed[of h] by simp
  thus ?thesis by simp
qed

lemma slot_arith:
  "(off \<le> n \<and> c < 32 \<and> 32 * (n - off) + c = (i::nat)) \<longleftrightarrow> (n = off + i div 32 \<and> c = i mod 32)"
proof (cases "off \<le> n")
  case True
  then obtain p where n: "n = off + p" using le_Suc_ex by blast
  have "(c < 32 \<and> 32 * p + c = i) \<longleftrightarrow> (p = i div 32 \<and> c = i mod 32)"
  proof
    assume "c < 32 \<and> 32 * p + c = i"
    thus "p = i div 32 \<and> c = i mod 32" by auto
  next
    assume "p = i div 32 \<and> c = i mod 32"
    thus "c < 32 \<and> 32 * p + c = i" by simp
  qed
  thus ?thesis using n by simp
next
  case False
  thus ?thesis by simp
qed

lemma fold_row:
  assumes "\<forall>i<cnt. \<forall>inn'. (\<forall>n\<ge>lst. inn' n = inn n) \<longrightarrow> src inn' i = g i"
    and "cnt \<le> 32 * (lst - off)"
  shows "fold (\<lambda>i inn. inner_insert inn (off + i div INNER_CARD) (i mod INNER_CARD) (src inn i))
              [0..<cnt] inn
         = (\<lambda>n c. if off \<le> n \<and> c < 32 \<and> 32 * (n - off) + c < cnt
                   then g (32 * (n - off) + c) else inn n c)"
  using assms
proof (induction cnt)
  case 0
  show ?case by simp
next
  case (Suc cnt)
  define f where "f = (\<lambda>i inn. inner_insert inn (off + i div INNER_CARD) (i mod INNER_CARD) (src inn i))"
  define F where "F = (\<lambda>n c. if off \<le> n \<and> c < 32 \<and> 32 * (n - off) + c < cnt
                   then g (32 * (n - off) + c) else inn n c)"
  have p1: "\<forall>i<cnt. \<forall>inn'. (\<forall>n\<ge>lst. inn' n = inn n) \<longrightarrow> src inn' i = g i"
    using Suc.prems(1) less_SucI by blast
  have p2: "cnt \<le> 32 * (lst - off)" using Suc.prems(2) by simp
  have IH: "fold f [0..<cnt] inn = F"
    unfolding f_def F_def by (rule Suc.IH[OF p1 p2])
  have "\<forall>n\<ge>lst. F n = inn n"
  proof (intro allI impI ext)
    fix n c assume "lst \<le> n"
    hence "32 * (lst - off) \<le> 32 * (n - off)" by simp
    hence "\<not> 32 * (n - off) + c < cnt" using p2 by linarith
    thus "F n c = inn n c" by (simp add: F_def)
  qed
  moreover have "\<forall>inn'. (\<forall>n\<ge>lst. inn' n = inn n) \<longrightarrow> src inn' cnt = g cnt"
    using Suc.prems(1) by simp
  ultimately have s: "src F cnt = g cnt" by (rule_tac mp[OF spec[of _ F]])
  have "fold f [0..<Suc cnt] inn = f cnt (fold f [0..<cnt] inn)" by simp
  also have "\<dots> = f cnt F" by (simp only: IH)
  also have "\<dots> = inner_insert F (off + cnt div 32) (cnt mod 32) (src F cnt)"
    by (simp only: f_def INNER_CARD_def)
  also have "\<dots> = inner_insert F (off + cnt div 32) (cnt mod 32) (g cnt)"
    by (simp only: s)
  also have "\<dots> = (\<lambda>n c. if off \<le> n \<and> c < 32 \<and> 32 * (n - off) + c < Suc cnt
                   then g (32 * (n - off) + c) else inn n c)"
  proof (intro ext)
    fix n c
    show "inner_insert F (off + cnt div 32) (cnt mod 32) (g cnt) n c
        = (if off \<le> n \<and> c < 32 \<and> 32 * (n - off) + c < Suc cnt
                   then g (32 * (n - off) + c) else inn n c)"
    proof (cases "n = off + cnt div 32 \<and> c = cnt mod 32")
      case True
      hence e: "off \<le> n \<and> c < 32 \<and> 32 * (n - off) + c = cnt"
        using slot_arith[of off n c cnt] by simp
      have "inner_insert F (off + cnt div 32) (cnt mod 32) (g cnt) n c = g cnt"
        using True by (simp add: inner_insert_def)
      thus ?thesis using e by simp
    next
      case False
      hence ne: "\<not> (off \<le> n \<and> c < 32 \<and> 32 * (n - off) + c = cnt)"
        using slot_arith[of off n c cnt] by simp
      have "inner_insert F (off + cnt div 32) (cnt mod 32) (g cnt) n c = F n c"
        using False by (cases "n = off + cnt div 32") (simp_all add: inner_insert_def)
      also have "\<dots> = (if off \<le> n \<and> c < 32 \<and> 32 * (n - off) + c < Suc cnt
                   then g (32 * (n - off) + c) else inn n c)"
      proof (cases "off \<le> n \<and> c < 32 \<and> 32 * (n - off) + c < cnt")
        case True
        thus ?thesis by (simp add: F_def)
      next
        case False
        hence nS: "\<not> (off \<le> n \<and> c < 32 \<and> 32 * (n - off) + c < Suc cnt)"
          using ne by linarith
        have "F n c = inn n c" by (simp only: F_def False if_False)
        thus ?thesis by (simp only: nS if_False)
      qed
      finally show ?thesis .
    qed
  qed
  finally show ?case unfolding f_def .
qed

lemma fill_row_spec:
  assumes "\<forall>i<cnt. \<forall>inn'. (\<forall>n\<ge>lst. inn' n = inn n) \<longrightarrow> src inn' i = g i"
    and "cnt \<le> 32 * (lst - off)"
  shows "fill_row MAX_KEY src off cnt inn n c
         = (if off \<le> n \<and> c < 32 \<and> 32 * (n - off) + c < cnt then g (32 * (n - off) + c)
            else if c \<noteq> 0 \<and> off \<le> n \<and> c < 32 \<and> 32 * (n - off) + c = cnt then MAX_KEY
            else inn n c)"
proof -
  define F where "F = fold (\<lambda>i inn. inner_insert inn (off + i div INNER_CARD) (i mod INNER_CARD) (src inn i))
              [0..<cnt] inn"
  have F: "F n c = (if off \<le> n \<and> c < 32 \<and> 32 * (n - off) + c < cnt
                   then g (32 * (n - off) + c) else inn n c)"
    unfolding F_def fold_row[OF assms] by (rule refl)
  have R: "fill_row MAX_KEY src off cnt inn
           = (if cnt mod 32 \<noteq> 0 then inner_insert F (off + cnt div 32) (cnt mod 32) MAX_KEY else F)"
    unfolding fill_row_def F_def Let_def INNER_CARD_def by (rule refl)
  have m: "(n = off + cnt div 32 \<and> c = cnt mod 32)
           \<longleftrightarrow> (off \<le> n \<and> c < 32 \<and> 32 * (n - off) + c = cnt)"
    using slot_arith[of off n c cnt] by simp
  show ?thesis
  proof (cases "cnt mod 32 \<noteq> 0 \<and> n = off + cnt div 32 \<and> c = cnt mod 32")
    case True
    hence "fill_row MAX_KEY src off cnt inn n c = MAX_KEY"
      unfolding R by (simp add: inner_insert_def)
    moreover have "c \<noteq> 0 \<and> off \<le> n \<and> c < 32 \<and> 32 * (n - off) + c = cnt"
      using True m by simp
    ultimately show ?thesis by simp
  next
    case False
    hence "fill_row MAX_KEY src off cnt inn n c = F n c"
      unfolding R by (auto simp add: inner_insert_def)
    moreover have "\<not> (c \<noteq> 0 \<and> off \<le> n \<and> c < 32 \<and> 32 * (n - off) + c = cnt)"
      using False m by auto
    ultimately show ?thesis unfolding F by auto
  qed
qed

lemma fill_row_frame:
  assumes "\<forall>i<cnt. \<forall>inn'. (\<forall>n\<ge>lst. inn' n = inn n) \<longrightarrow> src inn' i = g i"
    and "cnt \<le> 32 * (lst - off)" and "lst \<le> n"
  shows "fill_row MAX_KEY src off cnt inn n = inn n"
proof (rule ext)
  fix c
  have "\<not> 32 * (n - off) + c < cnt" "\<not> 32 * (n - off) + c = cnt \<or> c = 0"
    using assms(2,3) by auto
  thus "fill_row MAX_KEY src off cnt inn n c = inn n c"
    unfolding fill_row_spec[OF assms(1,2)] by auto
qed

lemma row_okD1:
  "row_ok M rs lf h inn l \<Longrightarrow> c < 32 \<Longrightarrow> 32 * p + c < row_cnt lf (h - 1 - l)
   \<Longrightarrow> inn (level_off l + p) c = key (rs ! (8 * (32 ^ (h - 1 - l) * (32 * p + c))))"
  by (simp add: row_ok_def)

lemma row_okD2:
  "row_ok M rs lf h inn l \<Longrightarrow> c < 32 \<Longrightarrow> c \<noteq> 0 \<Longrightarrow> 32 * p + c = row_cnt lf (h - 1 - l)
   \<Longrightarrow> inn (level_off l + p) c = M"
  by (simp add: row_ok_def)

lemma ceil32_le: "x \<le> 32 * P \<Longrightarrow> (x + 31) div 32 \<le> (P::nat)"
proof -
  assume "x \<le> 32 * P"
  hence "(x + 31) div 32 \<le> (32 * P + 31) div 32" by (intro div_le_mono) simp
  thus ?thesis by simp
qed

lemma ceil32_child: "i < (x + 31) div 32 \<Longrightarrow> 32 * i < (x::nat)"
proof -
  assume "i < (x + 31) div 32"
  hence "Suc i \<le> (x + 31) div 32" by simp
  hence "Suc i * 32 \<le> x + 31" by (simp only: less_eq_div_iff_mult_less_eq[OF zero_less_numeral])
  thus ?thesis by simp
qed

lemma ceil32_le_self: "(x + 31) div 32 \<le> (x::nat)"
proof (cases "x = 0")
  case True thus ?thesis by simp
next
  case False
  hence "x + 31 \<le> 32 * x" by simp
  hence "(x + 31) div 32 \<le> (32 * x) div 32" by (rule div_le_mono)
  thus ?thesis by simp
qed

lemma row_cnt_le: "lf \<le> 32 ^ (a + d) \<Longrightarrow> row_cnt lf d \<le> 32 ^ a"
proof (induction d arbitrary: a)
  case 0 thus ?case by simp
next
  case (Suc d)
  have "row_cnt lf d \<le> 32 ^ (Suc a)" using Suc.IH[of "Suc a"] Suc.prems by simp
  thus ?case by (simp add: ceil32_le)
qed

lemma row_cnt_le_lf: "row_cnt lf d \<le> lf"
proof (induction d)
  case 0 show ?case by simp
next
  case (Suc d)
  have "row_cnt lf (Suc d) \<le> row_cnt lf d" by (simp add: ceil32_le_self)
  thus ?case using Suc by simp
qed

lemma row_cnt_child: "i < row_cnt lf (Suc d) \<Longrightarrow> 32 * i < row_cnt lf d"
  by (simp add: ceil32_child)

lemma row_cnt_index: "j < row_cnt lf d \<Longrightarrow> 32 ^ d * j < lf"
proof (induction d arbitrary: j)
  case 0 thus ?case by simp
next
  case (Suc d)
  have "32 * j < row_cnt lf d" using Suc.prems by (rule row_cnt_child)
  hence "32 ^ d * (32 * j) < lf" by (rule Suc.IH)
  thus ?case by (simp add: mult.assoc mult.left_commute)
qed

lemma level_off_Suc_diff: "level_off (Suc m) - level_off m = 32 ^ m"
  by (simp add: INNER_CARD_def)

lemma level_off_mono: "a \<le> b \<Longrightarrow> level_off a \<le> level_off b"
  by (induction b) (auto simp add: le_Suc_eq)

lemma row_ok_cong:
  assumes "\<forall>n \<ge> level_off l. inn' n = inn n" "row_ok M rs lf h inn l"
  shows "row_ok M rs lf h inn' l"
proof -
  have "\<And>p. inn' (level_off l + p) = inn (level_off l + p)" using assms(1) by simp
  thus ?thesis using assms(2) by (simp add: row_ok_def)
qed

lemma row_step:
  assumes mh: "Suc m < h" and lf: "lf \<le> 32 ^ h"
    and ok: "row_ok M rs lf h inn (Suc m)"
  defines "inn' \<equiv> fill_row M (\<lambda>inn i. inn (level_off (Suc m) + i) 0) (level_off m)
                     (row_cnt lf (h - 1 - m)) inn"
  shows "row_ok M rs lf h inn' m" and "\<forall>n \<ge> level_off (Suc m). inn' n = inn n"
proof -
  define d where "d = h - 1 - Suc m"
  define cnt where "cnt = row_cnt lf (Suc d)"
  define g where "g = (\<lambda>i. key (rs ! (8 * (32 ^ Suc d * i))))"
  define lo where "lo = level_off (Suc m)"
  have hm: "h - 1 - m = Suc d" using mh by (simp add: d_def)
  have rd: "\<forall>i<cnt. inn (lo + i) 0 = g i"
  proof (intro allI impI)
    fix i assume "i < cnt"
    hence "32 * i < row_cnt lf d" unfolding cnt_def by (rule row_cnt_child)
    hence "32 * i + 0 < row_cnt lf (h - 1 - Suc m)" by (simp add: d_def)
    hence "inn (level_off (Suc m) + i) 0 = key (rs ! (8 * (32 ^ (h - 1 - Suc m) * (32 * i + 0))))"
      by (intro row_okD1[OF ok]) simp_all
    moreover have "8 * (32 ^ d * (32 * i + 0)) = 8 * (32 ^ Suc d * i)" by simp
    ultimately show "inn (lo + i) 0 = g i"
      unfolding g_def lo_def d_def[symmetric] by (simp only:)
  qed
  have a1: "\<forall>i<cnt. \<forall>inn'. (\<forall>n\<ge>lo. inn' n = inn n)
              \<longrightarrow> (\<lambda>inn i. inn (lo + i) 0) inn' i = g i"
    using rd by simp
  have "h = Suc m + Suc d" using mh by (simp add: d_def)
  hence "cnt \<le> 32 ^ Suc m"
    unfolding cnt_def using lf by (intro row_cnt_le) simp
  hence a2: "cnt \<le> 32 * (lo - level_off m)"
    unfolding lo_def by (simp only: level_off_Suc_diff power_Suc)
  have i': "inn' = fill_row M (\<lambda>inn i. inn (lo + i) 0) (level_off m) cnt inn"
    unfolding inn'_def hm cnt_def lo_def by (rule refl)
  have spec: "\<And>n c. inn' n c
         = (if level_off m \<le> n \<and> c < 32 \<and> 32 * (n - level_off m) + c < cnt
            then g (32 * (n - level_off m) + c)
            else if c \<noteq> 0 \<and> level_off m \<le> n \<and> c < 32 \<and> 32 * (n - level_off m) + c = cnt then M
            else inn n c)"
    unfolding i' by (rule fill_row_spec[OF a1 a2])
  show "row_ok M rs lf h inn' m"
    unfolding row_ok_def hm cnt_def[symmetric] by (simp add: spec g_def del: power_Suc)
  show "\<forall>n \<ge> level_off (Suc m). inn' n = inn n"
    unfolding i' lo_def[symmetric] using fill_row_frame[OF a1 a2] by blast
qed

lemma fill_upper_inv:
  assumes lf: "lf \<le> 32 ^ h" "lf \<le> 2 ^ 24"
  shows "m < h \<Longrightarrow> (0 < m \<longrightarrow> cur = level_off (m - 1))
     \<Longrightarrow> (\<forall>l. m \<le> l \<and> l < h \<longrightarrow> row_ok M rs lf h inn l)
     \<Longrightarrow> \<forall>l<h. row_ok M rs lf h
               (fst (fill_upper M (rev [0..<m]) (row_cnt lf (h - m)) (level_off m) cur (inn, evs))) l"
proof (induction m arbitrary: cur inn evs)
  case 0
  thus ?case by simp
next
  case (Suc m)
  define inn' where "inn' = fill_row M (\<lambda>inn i. inn (level_off (Suc m) + i) 0) (level_off m)
                     (row_cnt lf (h - 1 - m)) inn"
  define cur' where "cur' = (if m = 0 then cur else cur - INNER_CARD ^ (m - 1))"
  define evs' where "evs' = evs @ [Clwb (InnerNode cur) (256 * (row_cnt lf (h - Suc m) div INNER_CARD + 1))]"
  have cur: "cur = level_off m" using Suc.prems(2) by simp
  have hm: "h - m = Suc (h - Suc m)" using Suc.prems(1) by simp
  have "row_cnt lf (h - Suc m) \<le> 2 ^ 24" using row_cnt_le_lf[of lf "h - Suc m"] lf(2) by simp
  hence cf: "ceil_float_div (row_cnt lf (h - Suc m)) INNER_CARD = row_cnt lf (h - m)"
    by (subst hm) (simp add: ceil_float_div_exact INNER_CARD_def)
  have e: "fill_upper M (rev [0..<Suc m]) (row_cnt lf (h - Suc m)) (level_off (Suc m)) cur (inn, evs)
        = fill_upper M (rev [0..<m]) (row_cnt lf (h - m)) (level_off m) cur' (inn', evs')"
    by (simp add: cf cur cur'_def inn'_def evs'_def del: level_off.simps)
  have ok: "row_ok M rs lf h inn (Suc m)" using Suc.prems(1,3) by simp
  note st = row_step[OF Suc.prems(1) lf(1) ok]
  have c': "0 < m \<longrightarrow> cur' = level_off (m - 1)"
  proof
    assume "0 < m"
    then obtain k where k: "m = Suc k" by (cases m) auto
    show "cur' = level_off (m - 1)" by (simp add: cur'_def cur k)
  qed
  have inv: "\<forall>l. m \<le> l \<and> l < h \<longrightarrow> row_ok M rs lf h inn' l"
  proof (intro allI impI)
    fix l assume l: "m \<le> l \<and> l < h"
    show "row_ok M rs lf h inn' l"
    proof (cases "l = m")
      case True
      thus ?thesis using st(1) by (simp add: inn'_def)
    next
      case False
      hence "Suc m \<le> l" using l by simp
      hence "level_off (Suc m) \<le> level_off l" by (rule level_off_mono)
      hence "\<forall>n \<ge> level_off l. inn' n = inn n" using st(2) by (simp add: inn'_def)
      moreover have "row_ok M rs lf h inn l" using Suc.prems(3) l \<open>Suc m \<le> l\<close> by simp
      ultimately show ?thesis by (rule row_ok_cong)
    qed
  qed
  have "m < h" using Suc.prems(1) by simp
  from Suc.IH[OF this c' inv, of evs'] show ?case unfolding e .
qed

lemma log32_pow: "log 32 (32 ^ n) = real n"
  by (simp add: log_nat_power)

lemma ceil_log32_log:
  assumes "32 \<le> x"
  shows "int (ceil_log32 x) = \<lceil>log 32 (real x)\<rceil>"
proof (cases "x = 32")
  case True
  have "ceil_log32 32 = 1" by (subst ceil_log32.simps) simp
  thus ?thesis using True by simp
next
  case False
  hence x: "32 < x" using assms by simp
  define h where "h = ceil_log32 x"
  have lo: "32 ^ (h - 1) < x" unfolding h_def using x by (rule ceil_log32_lower)
  have up: "x \<le> 32 ^ h" unfolding h_def by (rule ceil_log32_upper)
  have hp: "0 < h" unfolding h_def by (rule ceil_log32_pos)
  define P :: real where "P = 32 ^ (h - 1)"
  define Q :: real where "Q = 32 ^ h"
  have P0: "0 < P" "0 < Q" by (simp_all add: P_def Q_def)
  have x0: "0 < real x" using x by simp
  have "real (32 ^ (h - 1)) < real x" using lo by (simp only: of_nat_less_iff)
  hence "P < real x" by (simp add: P_def)
  hence "log 32 P < log 32 (real x)"
    using log_less_cancel_iff[of 32 P "real x"] P0 x0 by simp
  hence 1: "real (h - 1) < log 32 (real x)" unfolding P_def by (simp only: log32_pow)
  have "real x \<le> real (32 ^ h)" using up by (simp only: of_nat_le_iff)
  hence "real x \<le> Q" by (simp add: Q_def)
  hence "log 32 (real x) \<le> log 32 Q"
    using log_le_cancel_iff[of 32 "real x" Q] P0 x0 by simp
  hence 2: "log 32 (real x) \<le> real h" unfolding Q_def by (simp only: log32_pow)
  have "\<lceil>log 32 (real x)\<rceil> = int h"
  proof (rule ceiling_unique)
    show "real_of_int (int h) - 1 < log 32 (real x)" using 1 hp by (simp add: of_nat_diff)
    show "log 32 (real x) \<le> real_of_int (int h)" using 2 by simp
  qed
  thus ?thesis by (simp add: h_def)
qed

lemma ceil8_le_self: "(n + 7) div 8 \<le> (n::nat)"
proof (cases "n = 0")
  case True thus ?thesis by simp
next
  case False
  hence "n + 7 \<le> 8 * n" by linarith
  hence "(n + 7) div 8 \<le> (8 * n) div 8" by (rule div_le_mono)
  thus ?thesis by simp
qed

lemma ceil8_child: "i < (n + 7) div 8 \<Longrightarrow> 8 * i < (n::nat)"
proof -
  assume "i < (n + 7) div 8"
  hence "Suc i \<le> (n + 7) div 8" by simp
  hence "Suc i * 8 \<le> n + 7" by (simp only: less_eq_div_iff_mult_less_eq[OF zero_less_numeral])
  thus ?thesis by simp
qed

lemma fill_leaf_keys:
  "keys (fill_leaf M rs i old) j =
     (if j < 8 then (if i * 8 + j < length rs then key (rs ! (i * 8 + j)) else M)
      else if j < 16 then M else keys old j)"
  by (simp add: fill_leaf_def LEAF_REBUILD_CARD_def LEAF_CARD_def)

lemma fill_leaf_vals:
  "vals (fill_leaf M rs i old) j =
     (if j < 8 then (if i * 8 + j < length rs then val (rs ! (i * 8 + j)) else 0)
      else vals old j)"
  by (simp add: fill_leaf_def LEAF_REBUILD_CARD_def)

lemma level_off_pred: "0 < h \<Longrightarrow> level_off h - 32 ^ (h - 1) = level_off (h - 1)"
  by (cases h) (simp_all add: INNER_CARD_def)

text \<open>What the constructor builds, for at most \<open>2^24\<close> records.\<close>

lemma build_facts:
  fixes M ri rl ib lb rs
  assumes N: "length rs \<le> 2 ^ 24"
  defines "t \<equiv> Fixtree_build M ri rl ib lb rs"
  defines "lf \<equiv> (length rs + 7) div 8"
  defines "h \<equiv> ceil_log32 (max 32 lf)"
  shows "leaf_cnt t = lf" "height t = h" "inner_cap t = max 16 (level_off h)"
    "leaf_cap t = max 16 lf"
    "\<forall>l\<le>h. level_offset t l = of_nat (level_off l)"
    "\<forall>i<lf. leaf_nodes t i = fill_leaf M rs i (rl i)"
    "entrance t = \<lparr>e_leaf_buff = lb, e_inner_buff = ib, e_height = h, e_leaf_cnt = lf\<rparr>"
    "inner_nodes t = fst (fill_upper M (rev [0..<h - 1]) ((lf + 31) div 32)
              (level_off (h - 1)) (level_off (h - 1) - 32 ^ (h - 2))
              (fill_row M (\<lambda>inn i. keys (if i < lf then fill_leaf M rs i (rl i) else rl i) 0)
                   (level_off (h - 1)) lf ri,
               map (\<lambda>i. Clwb (LeafNode i) 256) [0..<lf]
                     @ [Clwb (InnerNode (level_off (h - 1))) (256 * (lf div 32 + 1))]))"
proof -
  have c8: "ceil_float_div (length rs) LEAF_REBUILD_CARD = lf"
    using N by (simp add: ceil_float_div_exact LEAF_REBUILD_CARD_def lf_def)
  have "lf \<le> length rs" unfolding lf_def by (rule ceil8_le_self)
  hence "lf \<le> 2 ^ 24" using N by simp
  hence c32: "ceil_float_div lf INNER_CARD = (lf + 31) div 32"
    by (simp add: ceil_float_div_exact INNER_CARD_def)
  have hp: "0 < h" unfolding h_def by (rule ceil_log32_pos)
  have hI: "ceil_log32 (max INNER_CARD lf) = h" by (simp add: h_def INNER_CARD_def)
  have ic: "(INNER_CARD ^ h - 1) div (INNER_CARD - 1) = level_off h"
    unfolding INNER_CARD_def using level_off_div[of h] by simp
  have co: "level_off h - INNER_CARD ^ (h - 1) = level_off (h - 1)"
    using level_off_pred[OF hp] by (simp add: INNER_CARD_def)
  have T: "t = (let leaves = (\<lambda>i. if i < lf then fill_leaf M rs i (rl i) else rl i);
          inn1 = fill_row M (\<lambda>inn i. keys (leaves i) 0) (level_off (h - 1)) lf ri;
          (inn2, evs) =
            fill_upper M (rev [0..<h - 1]) ((lf + 31) div 32)
              (level_off (h - 1)) (level_off (h - 1) - INNER_CARD ^ (h - 2))
              (inn1, map (\<lambda>i. Clwb (LeafNode i) 256) [0..<lf]
                     @ [Clwb (InnerNode (level_off (h - 1))) (256 * (lf div INNER_CARD + 1))])
      in \<lparr>inner_nodes = inn2, inner_cap = max 16 (level_off h),
          leaf_nodes = leaves, leaf_cap = max 16 lf,
          height = h, leaf_cnt = lf,
          entrance = \<lparr>e_leaf_buff = lb, e_inner_buff = ib, e_height = h, e_leaf_cnt = lf\<rparr>,
          level_offset = (\<lambda>l. if l \<le> h then of_nat (level_off l) else 0),
          events = evs @ [PersistAssign EntLeafBuff lb, PersistAssign EntInnerBuff ib,
                          PersistAssign EntHeight (of_nat h),
                          PersistAssign EntLeafCnt (of_nat lf)]\<rparr>)"
    apply (simp only: t_def Fixtree_build_def Let_def)
    apply (simp only: c8)
    apply (simp only: hI)
    apply (simp only: c32 ic)
    apply (simp only: co)
    done
  define lvs where "lvs = (\<lambda>i. if i < lf then fill_leaf M rs i (rl i) else rl i)"
  define U where "U = fill_upper M (rev [0..<h - 1]) ((lf + 31) div 32)
              (level_off (h - 1)) (level_off (h - 1) - INNER_CARD ^ (h - 2))
              (fill_row M (\<lambda>inn i. keys (lvs i) 0) (level_off (h - 1)) lf ri,
               map (\<lambda>i. Clwb (LeafNode i) 256) [0..<lf]
                     @ [Clwb (InnerNode (level_off (h - 1))) (256 * (lf div INNER_CARD + 1))])"
  define lo where "lo = (\<lambda>l. if l \<le> h then (of_nat (level_off l) :: 32 word) else 0)"
  have T': "t = \<lparr>inner_nodes = fst U, inner_cap = max 16 (level_off h),
          leaf_nodes = lvs, leaf_cap = max 16 lf,
          height = h, leaf_cnt = lf,
          entrance = \<lparr>e_leaf_buff = lb, e_inner_buff = ib, e_height = h, e_leaf_cnt = lf\<rparr>,
          level_offset = lo,
          events = snd U @ [PersistAssign EntLeafBuff lb, PersistAssign EntInnerBuff ib,
                          PersistAssign EntHeight (of_nat h),
                          PersistAssign EntLeafCnt (of_nat lf)]\<rparr>"
    apply (subst T)
    apply (simp only: Let_def)
    apply (simp only: case_prod_beta)
    apply (simp only: U_def lvs_def lo_def)
    done
  show "leaf_cnt t = lf" by (subst T') (simp only: Fixtree.select_convs)
  show "height t = h" by (subst T') (simp only: Fixtree.select_convs)
  show "inner_cap t = max 16 (level_off h)" by (subst T') (simp only: Fixtree.select_convs)
  show "leaf_cap t = max 16 lf" by (subst T') (simp only: Fixtree.select_convs)
  have lo': "level_offset t = lo" by (subst T') (simp only: Fixtree.select_convs)
  show "\<forall>l\<le>h. level_offset t l = of_nat (level_off l)"
  proof (intro allI impI)
    fix l assume "l \<le> h"
    thus "level_offset t l = of_nat (level_off l)" unfolding lo' lo_def by (simp only: if_True)
  qed
  have lv': "leaf_nodes t = lvs" by (subst T') (simp only: Fixtree.select_convs)
  show "\<forall>i<lf. leaf_nodes t i = fill_leaf M rs i (rl i)"
  proof (intro allI impI)
    fix i assume "i < lf"
    thus "leaf_nodes t i = fill_leaf M rs i (rl i)" unfolding lv' lvs_def by (simp only: if_True)
  qed
  show "entrance t = \<lparr>e_leaf_buff = lb, e_inner_buff = ib, e_height = h, e_leaf_cnt = lf\<rparr>"
    by (subst T') (simp only: Fixtree.select_convs)
  show "inner_nodes t = fst (fill_upper M (rev [0..<h - 1]) ((lf + 31) div 32)
              (level_off (h - 1)) (level_off (h - 1) - 32 ^ (h - 2))
              (fill_row M (\<lambda>inn i. keys (if i < lf then fill_leaf M rs i (rl i) else rl i) 0)
                   (level_off (h - 1)) lf ri,
               map (\<lambda>i. Clwb (LeafNode i) 256) [0..<lf]
                     @ [Clwb (InnerNode (level_off (h - 1))) (256 * (lf div 32 + 1))]))"
    apply (subst T')
    apply (simp only: Fixtree.select_convs)
    apply (simp only: U_def lvs_def INNER_CARD_def)
    done
qed

lemma first_key_0: "ks 0 \<noteq> M \<Longrightarrow> 0 < n \<Longrightarrow> first_key M ks n = Some (ks 0)"
  by (simp add: first_key_def upt_conv_Cons)

lemma build_rows:
  fixes M ri rl ib lb rs
  assumes N: "length rs \<le> 2 ^ 24"
  defines "t \<equiv> Fixtree_build M ri rl ib lb rs"
  defines "lf \<equiv> (length rs + 7) div 8"
  defines "h \<equiv> ceil_log32 (max 32 lf)"
  shows "\<forall>l<h. row_ok M rs lf h (inner_nodes t) l"
proof -
  note bf = build_facts[OF N, of M ri rl ib lb, folded t_def lf_def h_def]
  have hp: "0 < h" unfolding h_def by (rule ceil_log32_pos)
  then obtain k where k: "h = Suc k" by (cases h) auto
  have "max 32 lf \<le> 32 ^ h" unfolding h_def by (rule ceil_log32_upper)
  hence lfh: "lf \<le> 32 ^ h" by simp
  have "lf \<le> length rs" unfolding lf_def by (rule ceil8_le_self)
  hence lf24: "lf \<le> 2 ^ 24" using N by simp
  define lvs where "lvs = (\<lambda>i. if i < lf then fill_leaf M rs i (rl i) else rl i)"
  define g where "g = (\<lambda>i. keys (lvs i) 0)"
  define inn1 where "inn1 = fill_row M (\<lambda>inn i. keys (lvs i) 0) (level_off k) lf ri"
  have a1: "\<forall>i<lf. \<forall>inn'. (\<forall>n\<ge>level_off h. inn' n = ri n)
              \<longrightarrow> (\<lambda>inn i. keys (lvs i) 0) inn' i = g i"
    by (simp add: g_def)
  have a2: "lf \<le> 32 * (level_off h - level_off k)"
    using lfh unfolding k by (simp only: level_off_Suc_diff power_Suc)
  have spec: "\<And>n c. inn1 n c
         = (if level_off k \<le> n \<and> c < 32 \<and> 32 * (n - level_off k) + c < lf
            then g (32 * (n - level_off k) + c)
            else if c \<noteq> 0 \<and> level_off k \<le> n \<and> c < 32 \<and> 32 * (n - level_off k) + c = lf then M
            else ri n c)"
    unfolding inn1_def by (rule fill_row_spec[OF a1 a2])
  have gk: "\<And>j. j < lf \<Longrightarrow> g j = key (rs ! (8 * j))"
  proof -
    fix j assume j: "j < lf"
    hence "8 * j < length rs" unfolding lf_def by (rule ceil8_child)
    thus "g j = key (rs ! (8 * j))"
      using j by (simp add: g_def lvs_def fill_leaf_keys mult.commute)
  qed
  have ok1: "row_ok M rs lf h inn1 k"
    unfolding row_ok_def k by (simp add: spec gk)
  have inv: "\<forall>l. k \<le> l \<and> l < h \<longrightarrow> row_ok M rs lf h inn1 l"
  proof (intro allI impI)
    fix l assume "k \<le> l \<and> l < h"
    hence "l = k" using k by simp
    thus "row_ok M rs lf h inn1 l" using ok1 by simp
  qed
  have cur: "0 < k \<longrightarrow> level_off k - 32 ^ (k - 1) = level_off (k - 1)"
    using level_off_pred[of k] by simp
  have kh: "k < h" using k by simp
  have r1: "row_cnt lf (h - k) = (lf + 31) div 32" unfolding k by simp
  from fill_upper_inv[OF lfh lf24 kh cur inv, unfolded r1]
  have "\<forall>l<h. row_ok M rs lf h
               (fst (fill_upper M (rev [0..<k]) ((lf + 31) div 32) (level_off k)
                       (level_off k - 32 ^ (k - 1))
                       (inn1, map (\<lambda>i. Clwb (LeafNode i) 256) [0..<lf]
                     @ [Clwb (InnerNode (level_off k)) (256 * (lf div 32 + 1))]))) l" .
  moreover have "inner_nodes t = fst (fill_upper M (rev [0..<k]) ((lf + 31) div 32) (level_off k)
                       (level_off k - 32 ^ (k - 1))
                       (inn1, map (\<lambda>i. Clwb (LeafNode i) 256) [0..<lf]
                     @ [Clwb (InnerNode (level_off k)) (256 * (lf div 32 + 1))]))"
  proof -
    have hk: "ceil_log32 (max 32 ((length rs + 7) div 8)) = Suc k"
      using k by (simp add: h_def lf_def)
    have d2: "Suc k - 2 = k - 1" by simp
    show ?thesis
      unfolding t_def inn1_def lvs_def lf_def
      apply (subst build_facts(8)[OF N, of M ri rl ib lb])
      apply (simp only: hk diff_Suc_1 d2)
      done
  qed
  ultimately show ?thesis by (simp only:)
qed

lemma build_child_first_key:
  fixes M ri rl ib lb rs
  assumes N: "length rs \<le> 2 ^ 24" and legal: "\<forall>r\<in>set rs. key r \<noteq> M"
  defines "t \<equiv> Fixtree_build M ri rl ib lb rs"
  assumes l: "l < height t" and c: "c < 32"
    and j: "32 * p + c < row_cnt (leaf_cnt t) (height t - 1 - l)"
  shows "first_key M (fst (node_keys t (Suc l) (32 * p + c))) (snd (node_keys t (Suc l) (32 * p + c)))
           = Some (inner_nodes t (level_off l + p) c)"
proof -
  define lf where "lf = (length rs + 7) div 8"
  define h where "h = ceil_log32 (max 32 lf)"
  define d where "d = h - 1 - l"
  define jj where "jj = 32 * p + c"
  note bf = build_facts[OF N, of M ri rl ib lb, folded t_def]
  have lc: "leaf_cnt t = lf" using bf(1) by (simp add: lf_def)
  have ht: "height t = h" using bf(2) by (simp add: h_def lf_def)
  have rows: "\<forall>l<h. row_ok M rs lf h (inner_nodes t) l"
    using build_rows[OF N, of M ri rl ib lb] by (simp add: t_def lf_def h_def)
  have lh: "l < h" using l ht by simp
  have jd: "jj < row_cnt lf d" using j lc ht by (simp add: d_def jj_def)
  have ok: "row_ok M rs lf h (inner_nodes t) l" using rows lh by simp
  have pk: "inner_nodes t (level_off l + p) c = key (rs ! (8 * (32 ^ d * jj)))"
    unfolding d_def jj_def by (rule row_okD1[OF ok c]) (use jd in \<open>simp add: d_def jj_def\<close>)
  have "32 ^ d * jj < lf" using jd by (rule row_cnt_index)
  hence ix: "8 * (32 ^ d * jj) < length rs" unfolding lf_def by (rule ceil8_child)
  hence "rs ! (8 * (32 ^ d * jj)) \<in> set rs" by simp
  hence ne: "key (rs ! (8 * (32 ^ d * jj))) \<noteq> M" using legal by blast
  have ck: "fst (node_keys t (Suc l) jj) 0 = key (rs ! (8 * (32 ^ d * jj)))"
  proof (cases "Suc l = h")
    case True
    hence d0: "d = 0" by (simp add: d_def)
    hence jl: "jj < lf" using jd by simp
    have "leaf_nodes t jj = fill_leaf M rs jj (rl jj)"
      using bf(6) jl by (simp add: lf_def)
    moreover have "jj * 8 < length rs" using ix d0 by (simp add: mult.commute)
    ultimately show ?thesis
      using True ht d0 by (simp add: node_keys_def fill_leaf_keys mult.commute)
  next
    case False
    hence sl: "Suc l < h" using lh by simp
    then obtain e where e: "d = Suc e" "h - 1 - Suc l = e" by (cases d) (auto simp add: d_def)
    have ok': "row_ok M rs lf h (inner_nodes t) (Suc l)" using rows sl by simp
    have "32 * jj < row_cnt lf e" using jd unfolding e(1) by (rule row_cnt_child)
    hence "32 * jj + 0 < row_cnt lf (h - 1 - Suc l)" by (simp only: e(2) add_0_right)
    hence "inner_nodes t (level_off (Suc l) + jj) 0
            = key (rs ! (8 * (32 ^ (h - 1 - Suc l) * (32 * jj + 0))))"
      by (intro row_okD1[OF ok']) simp_all
    moreover have "8 * (32 ^ e * (32 * jj + 0)) = 8 * (32 ^ Suc e * jj)" by simp
    ultimately have "inner_nodes t (level_off (Suc l) + jj) 0 = key (rs ! (8 * (32 ^ d * jj)))"
      unfolding e by (simp only:)
    thus ?thesis using False ht by (simp add: node_keys_def del: level_off.simps)
  qed
  have "0 < snd (node_keys t (Suc l) jj)"
    by (simp add: node_keys_def LEAF_CARD_def INNER_CARD_def)
  hence "first_key M (fst (node_keys t (Suc l) jj)) (snd (node_keys t (Suc l) jj))
           = Some (fst (node_keys t (Suc l) jj) 0)"
    using ne ck by (intro first_key_0) simp_all
  thus ?thesis unfolding jj_def[symmetric] using ck pk by simp
qed

lemma build_pad:
  fixes M ri rl ib lb rs
  assumes N: "length rs \<le> 2 ^ 24"
  defines "t \<equiv> Fixtree_build M ri rl ib lb rs"
  assumes l: "l < height t" and c: "c < 32" "c \<noteq> 0"
    and j: "32 * p + c = row_cnt (leaf_cnt t) (height t - 1 - l)"
  shows "inner_nodes t (level_off l + p) c = M"
proof -
  define lf where "lf = (length rs + 7) div 8"
  define h where "h = ceil_log32 (max 32 lf)"
  note bf = build_facts[OF N, of M ri rl ib lb, folded t_def]
  have lc: "leaf_cnt t = lf" using bf(1) by (simp add: lf_def)
  have ht: "height t = h" using bf(2) by (simp add: h_def lf_def)
  have rows: "\<forall>l<h. row_ok M rs lf h (inner_nodes t) l"
    using build_rows[OF N, of M ri rl ib lb] by (simp add: t_def lf_def h_def)
  have ok: "row_ok M rs lf h (inner_nodes t) l" using rows l ht by simp
  show ?thesis by (rule row_okD2[OF ok c]) (use j lc ht in simp)
qed

lemma build_leaf_cnt:
  "leaf_cnt (Fixtree_build M ri rl ib lb rs) = ceil_float_div (length rs) LEAF_REBUILD_CARD"
  apply (simp only: Fixtree_build_def Let_def)
  apply (simp only: case_prod_beta)
  apply (simp only: Fixtree.select_convs)
  done

lemma leaf_cnt_above_2_24:
  "leaf_cnt (Fixtree_build M ri rl ib lb (replicate 16777217 r)) = 2097152
   \<and> (16777217 + 7) div 8 = (2097153 :: nat)"
proof -
  have "bit_len 16777217 = 25" by (simp add: bit_len.simps)
  hence "float_of 16777217 = 16777216" by (simp add: float_of_def Let_def)
  thus ?thesis by (simp add: build_leaf_cnt ceil_float_div_def LEAF_REBUILD_CARD_def)
qed

section \<open>Claims\<close>

text \<open>
  C9. For every 64-bit state word \<open>st\<close> with count below 13, every logical position
  \<open>idx \<le> count\<close> and every 4-bit slot id, \<^verbatim>\<open>add(idx, slot)\<close> followed by
  \<^verbatim>\<open>remove(idx)\<close> gives a state with the count of \<open>st\<close> whose \<^verbatim>\<open>read(j)\<close> agrees with
  that of \<open>st\<close> at every logical position \<open>j < count\<close>.
\<close>

theorem C9_add_remove_roundtrip:
  assumes "unpack_count st < 13" "idx \<le> unpack_count st" "slot < 16"
  shows "unpack_count (state_t_remove (state_t_add st idx slot) idx) = unpack_count st
       \<and> (\<forall>j < unpack_count st.
             state_t_read (state_t_remove (state_t_add st idx slot) idx) j = state_t_read st j)"
proof (intro conjI allI impI)
  show "unpack_count (state_t_remove (state_t_add st idx slot) idx) = unpack_count st"
    using assms(1) by (simp add: count_add count_remove)
next
  fix j assume j: "j < unpack_count st"
  have i12: "idx \<le> 12" and j12: "j \<le> 12" using assms j by simp_all
  show "state_t_read (state_t_remove (state_t_add st idx slot) idx) j = state_t_read st j"
  proof (rule read_cong_bits[OF j12])
    fix n assume n: "48 - 4 * j \<le> n" "n < 52 - 4 * j"
    then have n52: "n < 52" and n4: "4 \<le> n" using j assms(1) by linarith+
    show "bit (state_t_remove (state_t_add st idx slot) idx) n = bit st n"
    proof (cases "52 \<le> n + 4 * idx")
      case True
      then have "52 - 4 * idx \<le> n" by linarith
      then show ?thesis using i12 assms(3) n52 by (simp add: bit_remove_low bit_add_low)
    next
      case False
      then have "\<not> 52 - 4 * idx \<le> n" "\<not> 52 - 4 * idx \<le> n - 4" "\<not> 48 - 4 * idx \<le> n - 4"
        using n4 i12 by linarith+
      then show ?thesis using i12 assms(3) n52 n4 by (simp add: bit_remove_low bit_add_low)
    qed
  qed
qed

theorem C9_add_remove_roundtrip_witness:
  "unpack_count (0x32010000000000 :: 64 word) = 3
   \<and> unpack_count (state_t_remove (state_t_add 0x32010000000000 1 3) 1) = 3
   \<and> state_t_read (state_t_remove (state_t_add 0x32010000000000 1 3) 1) 2
       = state_t_read 0x32010000000000 2
   \<and> state_t_read (state_t_add 0x32010000000000 1 3) 1 = 3"
proof -
  have c: "unpack_count (0x32010000000000 :: 64 word) = 3"
    by (simp add: unpack_count_def)
  have r: "state_t_read (state_t_add 0x32010000000000 1 3) 1 = 3"
    by code_simp
  show ?thesis
    using C9_add_remove_roundtrip[of "0x32010000000000" 1 3] c r by simp
qed

text \<open>
  C10. A leaf (\<^verbatim>\<open>leftmost_ptr_\<close> null) whose count is 0 and whose current sibling key is
  \<^verbatim>\<open>MAX_KEY\<close> answers \<^verbatim>\<open>get_child(k)\<close> with \<^verbatim>\<open>NULL\<close> for every legal key \<open>k\<close> (every
  key below the sentinel), whatever the record slots hold; and \<^verbatim>\<open>find\<close> on a tree whose
  root is such a leaf returns false.
\<close>

theorem C10_empty_leaf_get_child:
  assumes "deref m p = Some n"
    and "leftmost_ptr n = NULL"
    and "unpack_count (state n) = 0"
    and "key (siblings n (unpack_sibling_version (state n))) = MAX_KEY"
    and "k < MAX_KEY"
  shows "Node_get_child m p k = Some NULL
       \<and> (rootPtr m = p \<longrightarrow> wotree256_find m k = Some (False, NULL))"
proof -
  have here: "get_child_here n k = Some NULL"
    using assms(2,3) by (simp add: get_child_here_def slot_scan_empty)
  have nle: "\<not> MAX_KEY \<le> k" using assms(5) by (simp add: not_le)
  have gc: "Node_get_child m p k = Some NULL"
    using assms(1,4) nle here by (subst Node_get_child.simps) simp
  have "descend m p k = Some p"
    using assms(1,2) by (subst descend.simps) simp
  then show ?thesis using gc by (simp add: wotree256_find_def)
qed

theorem C10_empty_leaf_get_child_witness:
  "Node_get_child (empty_tree 0xffffffffffffffff (\<lambda>_. \<lparr>key = 5, val = 77\<rparr>)) 256 5 = Some NULL
   \<and> wotree256_find (empty_tree 0xffffffffffffffff (\<lambda>_. \<lparr>key = 5, val = 77\<rparr>)) 5 = Some (False, NULL)"
proof -
  let ?m = "empty_tree 0xffffffffffffffff (\<lambda>_. \<lparr>key = 5, val = 77\<rparr>)"
  let ?n = "Node_ctor 0xffffffffffffffff (\<lambda>_. \<lparr>key = 5, val = 77\<rparr>)"
  have 1: "deref ?m 256 = Some ?n" by (simp add: deref_def empty_tree_def NULL_def)
  have 2: "leftmost_ptr ?n = NULL" by (simp add: Node_ctor_def)
  have 3: "unpack_count (state ?n) = 0" by (simp add: Node_ctor_def unpack_count_def)
  have 4: "key (siblings ?n (unpack_sibling_version (state ?n))) = 0xffffffffffffffff"
    by (simp add: Node_ctor_def)
  have 5: "(5 :: key_t) < 0xffffffffffffffff" by simp
  have 6: "rootPtr ?m = 256" by (simp add: empty_tree_def)
  show ?thesis using C10_empty_leaf_get_child[OF 1 2 3 4 5] 6 by simp
qed

text \<open>
  C7. \<^verbatim>\<open>update(root_ptr, k, v)\<close> is claimed to return false when \<open>k\<close> is not present.
  On the empty tree key 5 is not found, and \<^verbatim>\<open>update\<close> of key 5 returns true.
\<close>

theorem C7_update_returns_true_when_absent:
  "wotree256_find (empty_tree 0xffffffffffffffff (\<lambda>_. \<lparr>key = 0, val = 0\<rparr>)) 5 = Some (False, NULL)
   \<and> map_option fst (wotree256_update (empty_tree 0xffffffffffffffff (\<lambda>_. \<lparr>key = 0, val = 0\<rparr>)) 5 9) = Some True"
proof -
  let ?m = "empty_tree 0xffffffffffffffff (\<lambda>_. \<lparr>key = 0, val = 0\<rparr>)"
  let ?n = "Node_ctor 0xffffffffffffffff (\<lambda>_. \<lparr>key = 0, val = 0\<rparr>)"
  have 1: "deref ?m 256 = Some ?n" by (simp add: deref_def empty_tree_def NULL_def)
  have 2: "leftmost_ptr ?n = NULL" by (simp add: Node_ctor_def)
  have 3: "unpack_count (state ?n) = 0" by (simp add: Node_ctor_def unpack_count_def)
  have 6: "rootPtr ?m = 256" by (simp add: empty_tree_def)
  have d: "descend ?m 256 5 = Some 256"
    using 1 2 by (subst descend.simps) simp
  have gc: "Node_get_child ?m 256 5 = Some NULL"
    using 1 2 3 by (subst Node_get_child.simps) (simp add: get_child_here_def slot_scan_empty Node_ctor_def)
  have u: "Node_update 256 ?n 5 9 = Some (False, ?n, [])"
    using 3 by (simp add: Node_update_def slot_scan_empty) (simp add: Node_ctor_def)
  show ?thesis using d gc u 1 6 by (simp add: wotree256_find_def wotree256_update_def)
qed

text \<open>
  C3 (as amended). When \<^verbatim>\<open>store\<close> finds the node full (count 13) it splits it with
  \<open>m = 6\<close> and split key \<^verbatim>\<open>recs_[read(6)].key\<close>. In a leaf the seven records at the
  logical positions 6..12 are copied into the physical slots 0..6 of the new node, logical
  position equal to physical slot, and the new node's count is 7. In an inner node the
  record at logical position 6 gives its value as the new node's \<^verbatim>\<open>leftmost_ptr_\<close>, the
  six records at the logical positions 7..12 are copied, and the new node's count is 6.
  In both cases the count of the split node becomes \<open>13 - 7 = 6\<close> and its first six
  logical positions are unchanged. \<open>Node_split\<close> is the split of \<^verbatim>\<open>store\<close>, up to the
  publication of the state word.
\<close>

theorem C3_split_counts:
  assumes "deref m0 p = Some n"
    and "unpack_count (state n) = 13"
    and "\<forall>i<13. state_t_read (state n) i < 13"
    and "brk m0 \<noteq> NULL" "unat (brk m0) + 256 < 2 ^ 64" "brk m0 \<noteq> p"
  shows "\<exists>m' sn n'.
      Node_split MAX_KEY m0 p = Some (key (recs n (state_t_read (state n) 6)), brk m0, m')
    \<and> deref m' (brk m0) = Some sn \<and> deref m' p = Some n'
    \<and> (if leftmost_ptr n = NULL
        then unpack_count (state sn) = 7 \<and> leftmost_ptr sn = NULL
           \<and> (\<forall>j<7. state_t_read (state sn) j = j
                     \<and> recs sn j = recs n (state_t_read (state n) (6 + j)))
        else unpack_count (state sn) = 6
           \<and> leftmost_ptr sn = val (recs n (state_t_read (state n) 6))
           \<and> (\<forall>j<6. state_t_read (state sn) j = j
                     \<and> recs sn j = recs n (state_t_read (state n) (7 + j))))
    \<and> unpack_count (state n') = 6
    \<and> (\<forall>j<6. state_t_read (state n') j = state_t_read (state n) j)
    \<and> recs n' = recs n"
proof -
  define a :: nat where "a = (if leftmost_ptr n = NULL then 6 else 7)"
  from Node_split_spec[OF assms a_def, of MAX_KEY] obtain m' sn n' where s:
    "Node_split MAX_KEY m0 p = Some (key (recs n (state_t_read (state n) 6)), brk m0, m')"
    "deref m' (brk m0) = Some sn" "deref m' p = Some n'"
    "unpack_count (state sn) = 13 - a" "unpack_count (state n') = 6"
    "leftmost_ptr sn
          = (if leftmost_ptr n = NULL then NULL else val (recs n (state_t_read (state n) 6)))"
    "\<forall>j<13 - a. state_t_read (state sn) j = j
              \<and> recs sn j = recs n (state_t_read (state n) (a + j))"
    "\<forall>j<6. state_t_read (state n') j = state_t_read (state n) j"
    "recs n' = recs n"
    by blast
  show ?thesis
    apply (rule exI[of _ m'], rule exI[of _ sn], rule exI[of _ n'])
    using s unfolding a_def by (simp split: if_splits)
qed

theorem C3_split_counts_witness:
  "\<exists>m' sn n'. Node_split 0xffffffffffffffff (full_node NULL) 256 = Some (7, 512, m')
     \<and> deref m' 512 = Some sn \<and> deref m' 256 = Some n'
     \<and> unpack_count (state sn) = 7 \<and> unpack_count (state n') = 6"
proof -
  obtain n where n: "nodes (full_node NULL) 256 = Some n"
    by (simp add: full_node_def)
  note f = full_node_node[OF n]
  have d: "deref (full_node NULL) 256 = Some n" using n full_node_facts(1) by simp
  have k: "key (recs n 6) = 7" using n by (auto simp add: full_node_def)
  from C3_split_counts[OF d, of "0xffffffffffffffff"] f full_node_facts(2-5)[of NULL]
  obtain m' sn n' where
    "Node_split 0xffffffffffffffff (full_node NULL) 256 = Some (key (recs n 6), 512, m')"
    "deref m' 512 = Some sn" "deref m' 256 = Some n'"
    "unpack_count (state sn) = 7" "unpack_count (state n') = 6"
    by auto
  then show ?thesis using k by auto
qed

text \<open>
  C3 as stated gives the new leaf the count 6 and the split leaf the count 7. On the full
  leaf with the keys 1..13 the new node has count 7 and the split node count 6.
\<close>

theorem C3_split_counts_counterexample:
  "split_counts 0xffffffffffffffff (full_node NULL) 256 = Some (7, 512, Some 7, Some 6)"
  by (rule full_leaf_split) (simp add: split_counts_def)


text \<open>
  The events of a split. In every split of \<^verbatim>\<open>store\<close> the persistence steps are, in this order:
  stores to the new node only; the flush of the new node's header line and the flush of its
  records from \<^verbatim>\<open>recs_[1]\<close> on; the store to the shadow sibling slot
  \<^verbatim>\<open>siblings_[1 - sibling_version]\<close> of the node that is split, with no flush of its own;
  the fence; and the publication of the new state word (count 6, sibling version toggled) by
  one \<^verbatim>\<open>persist_assign\<close> to the state location.
\<close>

lemma split_event_order:
  assumes "deref m0 p = Some n"
    and "unpack_count (state n) = 13"
    and "\<forall>i<13. state_t_read (state n) i < 13"
    and "brk m0 \<noteq> NULL" "unat (brk m0) + 256 < 2 ^ 64" "brk m0 \<noteq> p"
  shows "\<exists>m' sn n' pre.
      Node_split MAX_KEY m0 p = Some (key (recs n (state_t_read (state n) 6)), brk m0, m')
    \<and> deref m' (brk m0) = Some sn \<and> deref m' p = Some n'
    \<and> trace m' = trace m0 @ pre
         @ [Clwb (State (brk m0)) 64,
            Clwb (Rec (brk m0) 1) (16 * (unpack_count (state sn) - 1)),
            Wr (Sibling p (1 - unpack_sibling_version (state n))),
            Mfence,
            PersistAssign (State p) (state n')]
    \<and> list_all (writes_to (brk m0)) pre
    \<and> unpack_count (state n') = 6
    \<and> unpack_sibling_version (state n') = 1 - unpack_sibling_version (state n)"
proof -
  define a :: nat where "a = (if leftmost_ptr n = NULL then 6 else 7)"
  define pre where "pre = [Wr (State (brk m0)), Wr (Leftmost (brk m0)), Wr (Sibling (brk m0) 0),
            Wr (Sibling (brk m0) 1)]
         @ (if leftmost_ptr n = NULL then [] else [Wr (Leftmost (brk m0))])
         @ concat (map (\<lambda>q. [Wr (Rec (brk m0) q), Wr (State (brk m0))]) [0..<13 - a])
         @ [Wr (State (brk m0)), Wr (State (brk m0)), Wr (Sibling (brk m0) 0)]"
  have sv: "(unpack_sibling_version (state n) + 1) mod 2 = 1 - unpack_sibling_version (state n)"
    using unpack_sibling_version_lt[of "state n"] by (cases "unpack_sibling_version (state n)") auto
  from Node_split_spec[OF assms a_def, of MAX_KEY] obtain m' sn n' where s:
    "Node_split MAX_KEY m0 p = Some (key (recs n (state_t_read (state n) 6)), brk m0, m')"
    "deref m' (brk m0) = Some sn" "deref m' p = Some n'"
    "unpack_count (state sn) = 13 - a" "unpack_count (state n') = 6"
    "unpack_sibling_version (state n') = (unpack_sibling_version (state n) + 1) mod 2"
    "trace m' = trace m0
         @ [Wr (State (brk m0)), Wr (Leftmost (brk m0)), Wr (Sibling (brk m0) 0),
            Wr (Sibling (brk m0) 1)]
         @ (if leftmost_ptr n = NULL then [] else [Wr (Leftmost (brk m0))])
         @ concat (map (\<lambda>q. [Wr (Rec (brk m0) q), Wr (State (brk m0))]) [0..<13 - a])
         @ [Wr (State (brk m0)), Wr (State (brk m0)), Wr (Sibling (brk m0) 0),
            Clwb (State (brk m0)) 64, Clwb (Rec (brk m0) 1) (16 * (12 - a)),
            Wr (Sibling p ((unpack_sibling_version (state n) + 1) mod 2)), Mfence,
            PersistAssign (State p) (state n')]"
    by blast
  have c: "unpack_count (state sn) - 1 = 12 - a" using s(4) by simp
  have w: "list_all (writes_to (brk m0)) pre"
    unfolding pre_def by (simp add: writes_to_copies)
  have t: "trace m' = trace m0 @ pre
         @ [Clwb (State (brk m0)) 64,
            Clwb (Rec (brk m0) 1) (16 * (unpack_count (state sn) - 1)),
            Wr (Sibling p (1 - unpack_sibling_version (state n))),
            Mfence,
            PersistAssign (State p) (state n')]"
    unfolding s(7) pre_def c sv by simp
  show ?thesis
    apply (rule exI[of _ m'], rule exI[of _ sn], rule exI[of _ n'], rule exI[of _ pre])
    using s(1,2,3,5,6) w t sv by simp
qed

lemma split_event_order_full_leaf:
  "\<exists>m' (n' :: Node) pre. Node_split 0xffffffffffffffff (full_node NULL) 256 = Some (7, 512, m')
     \<and> trace m' = pre @ [Clwb (State 512) 64, Clwb (Rec 512 1) 96, Wr (Sibling 256 1), Mfence,
                          PersistAssign (State 256) (state n')]
     \<and> list_all (writes_to 512) pre
     \<and> unpack_count (state n') = 6 \<and> unpack_sibling_version (state n') = 1"
proof -
  let ?m = "full_node NULL"
  obtain n where n: "nodes ?m 256 = Some n"
    by (simp add: full_node_def)
  note f = full_node_node[OF n]
  have d: "deref ?m 256 = Some n" using n full_node_facts(1) by simp
  have k: "key (recs n 6) = 7" using n by (auto simp add: full_node_def)
  have h: "unpack_count (state n) = 13" "\<forall>i<13. state_t_read (state n) i < 13"
    "brk ?m \<noteq> NULL" "unat (brk ?m) + 256 < 2 ^ 64" "brk ?m \<noteq> 256"
    using f full_node_facts(2-4)[of NULL] by simp_all
  from split_event_order[OF d h, of "0xffffffffffffffff"]
  obtain m' sn n' pre where s:
    "Node_split 0xffffffffffffffff ?m 256
       = Some (key (recs n (state_t_read (state n) 6)), brk ?m, m')"
    "deref m' (brk ?m) = Some sn" "deref m' 256 = Some n'"
    "trace m' = trace ?m @ pre
         @ [Clwb (State (brk ?m)) 64,
            Clwb (Rec (brk ?m) 1) (16 * (unpack_count (state sn) - 1)),
            Wr (Sibling 256 (1 - unpack_sibling_version (state n))),
            Mfence,
            PersistAssign (State 256) (state n')]"
    "list_all (writes_to (brk ?m)) pre"
    "unpack_count (state n') = 6"
    "unpack_sibling_version (state n') = 1 - unpack_sibling_version (state n)"
    by (elim exE conjE) (rule that; assumption)
  have c: "unpack_count (state sn) = 7"
    by (rule full_leaf_split) (use s(1,2) full_node_facts(5)[of NULL] in auto)
  have "Node_split 0xffffffffffffffff ?m 256 = Some (7, 512, m')
     \<and> trace m' = pre @ [Clwb (State 512) 64, Clwb (Rec 512 1) 96, Wr (Sibling 256 1), Mfence,
                          PersistAssign (State 256) (state n')]
     \<and> list_all (writes_to 512) pre
     \<and> unpack_count (state n') = 6 \<and> unpack_sibling_version (state n') = 1"
    using s c k f full_node_facts(5,6)[of NULL] by simp
  then show ?thesis by blast
qed

text \<open>
  Claim C4 has the shadow sibling slot written and flushed before the fence. \<^verbatim>\<open>store\<close> on
  the full leaf at address 256 (keys 1 to 13) splits it, and the events from the first flush
  on are: the two flushes of the new node, the store to the shadow slot
  \<^verbatim>\<open>siblings_[1]\<close> of the node that is split, the fence, and the publication of the state
  word. No flush of the shadow slot stands between its store and the fence.
\<close>

theorem C4_split_shadow_slot_not_flushed:
  "map_option (dropWhile (\<lambda>e. \<not> is_flush e)) (split_trace 0xffffffffffffffff (full_node NULL) 256)
     = Some [Clwb (State 512) 64, Clwb (Rec 512 1) 96, Wr (Sibling 256 1), Mfence,
             PersistAssign (State 256) 0x160123456789abc]"
proof (rule full_leaf_split)
  fix m' sn n'
  assume s: "Node_split 0xffffffffffffffff (full_node NULL) 256 = Some (7, 512, m')"
    "trace m' = [Wr (State 512), Wr (Leftmost 512), Wr (Sibling 512 0), Wr (Sibling 512 1)]
         @ concat (map (\<lambda>q. [Wr (Rec 512 q), Wr (State 512)]) [0..<7])
         @ [Wr (State 512), Wr (State 512), Wr (Sibling 512 0),
            Clwb (State 512) 64, Clwb (Rec 512 1) 96,
            Wr (Sibling 256 1), Mfence, PersistAssign (State 256) (state n')]"
    "state n' = set_sibling_version (set_count 0xd0123456789abc 22) 1"
  have "split_trace 0xffffffffffffffff (full_node NULL) 256 = Some (trace m')"
    using s(1) by (simp add: split_trace_def full_node_facts)
  then show ?thesis unfolding s(2) s(3) st_val by (simp add: upt_conv_Cons)
qed

text \<open>
  The cases of \<^verbatim>\<open>try_remove\<close> on a leaf whose first slot is at most the key. Let
  \<^verbatim>\<open>try_remove(k)\<close> reach a leaf whose slot 0 holds a key other
  than \<^verbatim>\<open>MAX_KEY\<close> that is at most \<open>k\<close>. Then \<open>m\<close>, the first position of the largest
  key \<open>\<le> k\<close> among the slots that do not hold \<^verbatim>\<open>MAX_KEY\<close>, exists, and with \<open>rec_cnt\<close> the
  number of such slots: if \<open>m = 0\<close> and \<open>rec_cnt > 1\<close>, the operation returns false and
  changes nothing; otherwise it sets the key at position \<open>m\<close> to \<^verbatim>\<open>MAX_KEY\<close> by one
  \<^verbatim>\<open>persist_assign\<close> and returns true.
\<close>

lemma try_remove_cases:
  assumes leaf: "target_leaf t k = Some cur_idx" "leaf_at t (sint cur_idx) = Some lf"
    and k0: "keys lf 0 \<noteq> MAX_KEY" "keys lf 0 \<le> k"
  shows "\<exists>m < LEAF_CARD.
           keys lf m \<noteq> MAX_KEY \<and> keys lf m \<le> k
         \<and> (\<forall>i < LEAF_CARD. keys lf i \<noteq> MAX_KEY \<and> keys lf i \<le> k \<longrightarrow> keys lf i \<le> keys lf m)
         \<and> (\<forall>i < m. keys lf i \<noteq> MAX_KEY \<and> keys lf i \<le> k \<longrightarrow> keys lf i < keys lf m)
         \<and> Fixtree_try_remove MAX_KEY t k =
             (if m = 0 \<and> card {i. i < LEAF_CARD \<and> keys lf i \<noteq> MAX_KEY} > 1
              then Some (False, t)
              else Some (True,
                     t\<lparr>leaf_nodes := (leaf_nodes t)(nat (sint cur_idx) :=
                          lf\<lparr>keys := (keys lf)(m := MAX_KEY)\<rparr>),
                       events := events t @ [PersistAssign (LeafKey (sint cur_idx) m) MAX_KEY]\<rparr>))"
proof -
  obtain mk mi where s:
    "remove_scan MAX_KEY lf k = (mk, mi, card {i. i < LEAF_CARD \<and> keys lf i \<noteq> MAX_KEY})"
    "mi < LEAF_CARD" "keys lf mi = mk" "mk \<le> k" "mk \<noteq> MAX_KEY"
    "\<forall>i < LEAF_CARD. keys lf i \<noteq> MAX_KEY \<and> keys lf i \<le> k \<longrightarrow> keys lf i \<le> mk"
    "\<forall>i < mi. keys lf i \<noteq> MAX_KEY \<and> keys lf i \<le> k \<longrightarrow> keys lf i < mk"
    by (rule remove_scan_spec[OF k0]) (rule that; assumption)
  have run: "Fixtree_try_remove MAX_KEY t k =
             (if mi = 0 \<and> card {i. i < LEAF_CARD \<and> keys lf i \<noteq> MAX_KEY} > 1
              then Some (False, t)
              else Some (True,
                     t\<lparr>leaf_nodes := (leaf_nodes t)(nat (sint cur_idx) :=
                          lf\<lparr>keys := (keys lf)(mi := MAX_KEY)\<rparr>),
                       events := events t @ [PersistAssign (LeafKey (sint cur_idx) mi) MAX_KEY]\<rparr>))"
    by (simp add: Fixtree_try_remove_def leaf s(1))
  show ?thesis
    using s(2-7) run by (intro exI[of _ mi]) simp
qed

lemma try_remove_cases_tree_1_24:
  "Fixtree_try_remove 0xffffffffffffffff tree_1_24 24 =
     Some (True,
       tree_1_24\<lparr>leaf_nodes := (leaf_nodes tree_1_24)(2 :=
                   (leaf_nodes tree_1_24 2)\<lparr>keys := (keys (leaf_nodes tree_1_24 2))
                                                   (7 := 0xffffffffffffffff)\<rparr>),
                 events := events tree_1_24
                   @ [PersistAssign (LeafKey 2 7) 0xffffffffffffffff]\<rparr>)"
proof -
  let ?lf = "leaf_nodes tree_1_24 2"
  have tl: "target_leaf tree_1_24 24 = Some 2" by code_simp
  have cap: "leaf_cap tree_1_24 = 16" by code_simp
  have la: "leaf_at tree_1_24 (sint (2 :: 32 word)) = Some ?lf"
    by (simp add: leaf_at_def cap)
  have ks: "\<forall>i<16. keys ?lf i =
      [17, 18, 19, 20, 21, 22, 23, 24, 0xffffffffffffffff, 0xffffffffffffffff,
       0xffffffffffffffff, 0xffffffffffffffff, 0xffffffffffffffff, 0xffffffffffffffff,
       0xffffffffffffffff, 0xffffffffffffffff] ! i"
  proof (intro allI impI)
    fix i :: nat assume "i < 16"
    hence "keys ?lf i = map (keys ?lf) [0..<16] ! i" by simp
    thus "keys ?lf i =
      [17, 18, 19, 20, 21, 22, 23, 24, 0xffffffffffffffff, 0xffffffffffffffff,
       0xffffffffffffffff, 0xffffffffffffffff, 0xffffffffffffffff, 0xffffffffffffffff,
       0xffffffffffffffff, 0xffffffffffffffff] ! i"
      by (simp only: tree_1_24_leaf2)
  qed
  have k0: "keys ?lf 0 \<noteq> 0xffffffffffffffff" "keys ?lf 0 \<le> 24"
    using ks by simp_all
  have k7: "keys ?lf 7 = 24" using ks by simp
  from try_remove_cases[OF tl la k0]
  obtain m where m: "m < LEAF_CARD" "keys ?lf m \<noteq> 0xffffffffffffffff" "keys ?lf m \<le> 24"
    "\<forall>i < LEAF_CARD. keys ?lf i \<noteq> 0xffffffffffffffff \<and> keys ?lf i \<le> 24
         \<longrightarrow> keys ?lf i \<le> keys ?lf m"
    "Fixtree_try_remove 0xffffffffffffffff tree_1_24 24 =
             (if m = 0 \<and> card {i. i < LEAF_CARD \<and> keys ?lf i \<noteq> 0xffffffffffffffff} > 1
              then Some (False, tree_1_24)
              else Some (True,
                     tree_1_24\<lparr>leaf_nodes := (leaf_nodes tree_1_24)(nat (sint (2 :: 32 word)) :=
                          ?lf\<lparr>keys := (keys ?lf)(m := 0xffffffffffffffff)\<rparr>),
                       events := events tree_1_24
                         @ [PersistAssign (LeafKey (sint (2 :: 32 word)) m) 0xffffffffffffffff]\<rparr>))"
    by (elim exE conjE) (rule that; assumption)
  have "(7 :: nat) < LEAF_CARD" by (simp add: LEAF_CARD_def)
  hence "keys ?lf 7 \<le> keys ?lf m" using m(4) k7 by fastforce
  hence e: "keys ?lf m = 24" using m(3) k7 by simp
  have "m \<in> set [0..<16]" using m(1) by (simp add: LEAF_CARD_def)
  hence "m = 7"
    using e ks by (auto simp add: upt_conv_Cons)
  thus ?thesis using m(5) by simp
qed

text \<open>
  Claim C5 on the tree built from the keys 1 to 9 after \<^verbatim>\<open>try_remove(9)\<close>,
  \<^verbatim>\<open>insert(15, 115)\<close>, \<^verbatim>\<open>insert(12, 112)\<close>, which all return true: leaf 1 holds the keys
  15 and 12 at the positions 0 and 1, so the largest key \<open>\<le> 12\<close> is at position 1 and the
  leaf has two records; \<^verbatim>\<open>try_remove(12)\<close> reaches leaf 1, returns false and leaves the
  leaf as it is, where the claim has the key at position 1 set to \<^verbatim>\<open>MAX_KEY\<close> and the
  result true.
\<close>

theorem C5_try_remove_refuses_present_key:
  "try_remove_12 =
     Some (1,
       [15, 12, 0xffffffffffffffff, 0xffffffffffffffff, 0xffffffffffffffff, 0xffffffffffffffff,
        0xffffffffffffffff, 0xffffffffffffffff, 0xffffffffffffffff, 0xffffffffffffffff,
        0xffffffffffffffff, 0xffffffffffffffff, 0xffffffffffffffff, 0xffffffffffffffff,
        0xffffffffffffffff, 0xffffffffffffffff],
       False,
       [15, 12, 0xffffffffffffffff, 0xffffffffffffffff, 0xffffffffffffffff, 0xffffffffffffffff,
        0xffffffffffffffff, 0xffffffffffffffff, 0xffffffffffffffff, 0xffffffffffffffff,
        0xffffffffffffffff, 0xffffffffffffffff, 0xffffffffffffffff, 0xffffffffffffffff,
        0xffffffffffffffff, 0xffffffffffffffff])"
  by code_simp

text \<open>
  Claim C8. When \<^verbatim>\<open>insert(k, v)\<close> or \<^verbatim>\<open>try_remove(k)\<close> returns, with either result, every
  leaf other than the one the descent selects, every inner node, the entrance, the height,
  the leaf count and the cached level offsets are as before; when it returns false, the
  whole tree is as before.
\<close>

theorem C8_frame:
  assumes "Fixtree_insert MAX_KEY t k v = Some (b, t') \<or> Fixtree_try_remove MAX_KEY t k = Some (b, t')"
  shows "\<exists>cur_idx. target_leaf t k = Some cur_idx
           \<and> (\<forall>i. i \<noteq> nat (sint cur_idx) \<longrightarrow> leaf_nodes t' i = leaf_nodes t i)
           \<and> inner_nodes t' = inner_nodes t
           \<and> entrance t' = entrance t
           \<and> height t' = height t \<and> leaf_cnt t' = leaf_cnt t
           \<and> level_offset t' = level_offset t
           \<and> inner_cap t' = inner_cap t \<and> leaf_cap t' = leaf_cap t
           \<and> (\<not> b \<longrightarrow> t' = t)"
  using assms
  by (auto simp: Fixtree_insert_def Fixtree_try_remove_def leaf_insert_def Let_def
           split: Option.bind_splits option.splits if_splits prod.splits)

theorem C8_frame_witness:
  "\<exists>t'. Fixtree_insert 0xffffffffffffffff tree_1_24 25 7 = Some (True, t')
        \<and> target_leaf tree_1_24 25 = Some 2
        \<and> leaf_nodes t' 0 = leaf_nodes tree_1_24 0 \<and> leaf_nodes t' 1 = leaf_nodes tree_1_24 1
        \<and> inner_nodes t' = inner_nodes tree_1_24 \<and> entrance t' = entrance tree_1_24
        \<and> height t' = height tree_1_24 \<and> leaf_cnt t' = leaf_cnt tree_1_24
        \<and> level_offset t' = level_offset tree_1_24"
proof -
  have "map_option fst (Fixtree_insert 0xffffffffffffffff tree_1_24 25 7) = Some True"
    by code_simp
  then obtain t' where i: "Fixtree_insert 0xffffffffffffffff tree_1_24 25 7 = Some (True, t')"
    by (cases "Fixtree_insert 0xffffffffffffffff tree_1_24 25 7") auto
  have tl: "target_leaf tree_1_24 25 = Some 2" by code_simp
  from C8_frame[OF disjI1[OF i]] tl i show ?thesis by auto
qed

text \<open>
  Claim C6, amended. For every input vector of at most \<open>2^24\<close> records whose keys differ
  from \<^verbatim>\<open>MAX_KEY\<close>, the constructor produces \<open>leaf_cnt = \<lceil>N / 8\<rceil>\<close> and
  \<open>height = \<lceil>log\<^sub>3\<^sub>2 (max 32 leaf_cnt)\<rceil>\<close>; for every level \<open>l < height\<close>, every node \<open>p\<close> of
  that level and every child position \<open>c < 32\<close> whose child \<open>32 p + c\<close> is in use, the child's
  first key other than \<^verbatim>\<open>MAX_KEY\<close> equals the parent's \<^verbatim>\<open>keys[c]\<close>; and the position behind
  the last child in use, unless it starts a node, holds \<^verbatim>\<open>MAX_KEY\<close>.
\<close>

theorem C6_bulk_load_geometry:
  assumes "length records \<le> 2 ^ 24" and "\<forall>r\<in>set records. key r \<noteq> MAX_KEY"
  shows "let t = Fixtree_build MAX_KEY raw_inner raw_leaf ib lb records in
           leaf_cnt t = (length records + 7) div 8
         \<and> int (height t) = \<lceil>log 32 (real (max 32 (leaf_cnt t)))\<rceil>
         \<and> (\<forall>l<height t. \<forall>p c. c < 32 \<longrightarrow>
               (32 * p + c < row_cnt (leaf_cnt t) (height t - 1 - l) \<longrightarrow>
                  first_key MAX_KEY (fst (node_keys t (Suc l) (32 * p + c)))
                                    (snd (node_keys t (Suc l) (32 * p + c)))
                    = Some (inner_nodes t (level_off l + p) c))
             \<and> (c \<noteq> 0 \<and> 32 * p + c = row_cnt (leaf_cnt t) (height t - 1 - l) \<longrightarrow>
                  inner_nodes t (level_off l + p) c = MAX_KEY))"
proof -
  define t where "t = Fixtree_build MAX_KEY raw_inner raw_leaf ib lb records"
  note bf = build_facts[OF assms(1), of MAX_KEY raw_inner raw_leaf ib lb, folded t_def]
  have 1: "leaf_cnt t = (length records + 7) div 8" by (rule bf(1))
  have "height t = ceil_log32 (max 32 (leaf_cnt t))" using bf(2) 1 by simp
  moreover have "int (ceil_log32 (max 32 (leaf_cnt t))) = \<lceil>log 32 (real (max 32 (leaf_cnt t)))\<rceil>"
    by (rule ceil_log32_log) simp
  ultimately have 2: "int (height t) = \<lceil>log 32 (real (max 32 (leaf_cnt t)))\<rceil>" by simp
  have 3: "\<forall>l<height t. \<forall>p c. c < 32 \<longrightarrow>
               (32 * p + c < row_cnt (leaf_cnt t) (height t - 1 - l) \<longrightarrow>
                  first_key MAX_KEY (fst (node_keys t (Suc l) (32 * p + c)))
                                    (snd (node_keys t (Suc l) (32 * p + c)))
                    = Some (inner_nodes t (level_off l + p) c))
             \<and> (c \<noteq> 0 \<and> 32 * p + c = row_cnt (leaf_cnt t) (height t - 1 - l) \<longrightarrow>
                  inner_nodes t (level_off l + p) c = MAX_KEY)"
    unfolding t_def
    using build_child_first_key[OF assms] build_pad[OF assms(1)] by blast
  show ?thesis unfolding Let_def t_def[symmetric] using 1 2 3 by blast
qed

theorem C6_bulk_load_geometry_witness:
  "leaf_cnt tree_1_24 = (24 + 7) div 8
   \<and> int (height tree_1_24) = \<lceil>log 32 (real (max 32 (leaf_cnt tree_1_24)))\<rceil>
   \<and> first_key 0xffffffffffffffff (fst (node_keys tree_1_24 1 1)) (snd (node_keys tree_1_24 1 1))
       = Some (inner_nodes tree_1_24 0 1)
   \<and> inner_nodes tree_1_24 0 3 = 0xffffffffffffffff"
proof -
  have a: "length (recs_upto 24) \<le> 2 ^ 24" by (simp add: recs_upto_def)
  have b: "\<forall>r\<in>set (recs_upto 24). key r \<noteq> 0xffffffffffffffff" by code_simp
  have lc: "leaf_cnt tree_1_24 = 3" and h: "height tree_1_24 = 1" by code_simp+
  note w = C6_bulk_load_geometry[OF a b, of junk_inner junk_leaf 4096 8192,
             unfolded Let_def, folded tree_1_24_def]
  have 1: "leaf_cnt tree_1_24 = (24 + 7) div 8" using w by (simp add: recs_upto_def)
  have 2: "int (height tree_1_24) = \<lceil>log 32 (real (max 32 (leaf_cnt tree_1_24)))\<rceil>"
    using w by blast
  have 3: "\<forall>l<height tree_1_24. \<forall>p c. c < 32 \<longrightarrow>
               (32 * p + c < row_cnt (leaf_cnt tree_1_24) (height tree_1_24 - 1 - l) \<longrightarrow>
                  first_key 0xffffffffffffffff (fst (node_keys tree_1_24 (Suc l) (32 * p + c)))
                                    (snd (node_keys tree_1_24 (Suc l) (32 * p + c)))
                    = Some (inner_nodes tree_1_24 (level_off l + p) c))
             \<and> (c \<noteq> 0 \<and> 32 * p + c = row_cnt (leaf_cnt tree_1_24) (height tree_1_24 - 1 - l) \<longrightarrow>
                  inner_nodes tree_1_24 (level_off l + p) c = 0xffffffffffffffff)"
    using w by blast
  have 4: "first_key 0xffffffffffffffff (fst (node_keys tree_1_24 1 1)) (snd (node_keys tree_1_24 1 1))
       = Some (inner_nodes tree_1_24 0 1)"
    using 3[rule_format, of 0 1 0] by (simp add: lc h)
  have 5: "inner_nodes tree_1_24 0 3 = 0xffffffffffffffff"
    using 3[rule_format, of 0 3 0] by (simp add: lc h)
  show ?thesis using 1 2 4 5 by blast
qed


text \<open>
  Claim C6 as stated covers every position whose key is not \<^verbatim>\<open>MAX_KEY\<close>. The constructor
  writes one \<^verbatim>\<open>MAX_KEY\<close> behind the last child and leaves the positions after it as the
  memory held them. In the tree built from the keys 1 to 24 in memory that held other data,
  position 4 of the root holds \<open>0x77\<close>, which is not \<^verbatim>\<open>MAX_KEY\<close>, and the first key of
  leaf 4, which is not one of the three leaves of the tree, is \<open>0x55\<close>. In the same tree
  built in memory that held zeros, position 16 of the root holds 0, which is not
  \<^verbatim>\<open>MAX_KEY\<close>, and there is no leaf 16: the leaf buffer has room for 16 leaves.
\<close>

theorem C6_bulk_load_geometry_counterexample:
  "height tree_1_24 = 1 \<and> leaf_cnt tree_1_24 = 3
   \<and> inner_nodes tree_1_24 (level_off 0 + 0) 4 = 0x77
   \<and> first_key 0xffffffffffffffff (fst (node_keys tree_1_24 1 4)) (snd (node_keys tree_1_24 1 4))
       = Some 0x55
   \<and> height tree_1_24_zero = 1 \<and> leaf_cnt tree_1_24_zero = 3
   \<and> inner_nodes tree_1_24_zero (level_off 0 + 0) 16 = 0
   \<and> leaf_at tree_1_24_zero 16 = None"
  by code_simp

text \<open>
  Claim C2 has \<^verbatim>\<open>find_lower(0)\<close> on the tree built from the keys 1 to 24 return the slot
  of key 1, which is slot 0 of leaf 0, what \<^verbatim>\<open>find_lower(1)\<close> returns. For the key 0
  \<^verbatim>\<open>inner_search\<close> returns \<open>-1\<close> at the root, the leaf index becomes \<open>-1\<close>, and
  \<^verbatim>\<open>leaf_search\<close> reads outside the leaf buffer: the call has no defined result.
\<close>

theorem C2_find_lower_below_smallest_key:
  "inner_search tree_1_24 0 0 = Some (- 1)
   \<and> map_option sint (target_leaf tree_1_24 0) = Some (- 1)
   \<and> Fixtree_find_lower tree_1_24 0 = None
   \<and> Fixtree_find_lower tree_1_24 1 = Some (0, 0)
   \<and> Fixtree_find_lower tree_1_24 7 = Some (0, 6)
   \<and> Fixtree_find_lower tree_1_24 100 = Some (2, 7)"
  by code_simp

end
